theory Spec2Isabelle
  imports Main
begin

section \<open>Text: characters, lines and tokens\<close>

text \<open>
  A Python \<open>str\<close> is modelled as a HOL \<open>string\<close> in which every \<open>char\<close> is one code point
  below 256 (the Latin-1 block). The character classes below are the ones the \<open>re\<close> and
  \<open>str\<close> libraries use on that block.
\<close>

definition code :: "char \<Rightarrow> nat" where
  "code c = of_char c"

definition is_space :: "char \<Rightarrow> bool" where
  \<comment> \<open>\<open>\s\<close> and \<open>str.isspace\<close>\<close>
  "is_space c = (let n = code c in
     (9 \<le> n \<and> n \<le> 13) \<or> (28 \<le> n \<and> n \<le> 32) \<or> n = 133 \<or> n = 160)"

definition is_digit :: "char \<Rightarrow> bool" where
  \<comment> \<open>\<open>[0-9]\<close>\<close>
  "is_digit c = (let n = code c in 48 \<le> n \<and> n \<le> 57)"

definition is_word :: "char \<Rightarrow> bool" where
  \<comment> \<open>\<open>\w\<close>: alphanumeric or underscore\<close>
  "is_word c = (let n = code c in
     (48 \<le> n \<and> n \<le> 57) \<or> (65 \<le> n \<and> n \<le> 90) \<or> n = 95 \<or> (97 \<le> n \<and> n \<le> 122)
     \<or> n = 170 \<or> n = 178 \<or> n = 179 \<or> n = 181 \<or> n = 185 \<or> n = 186
     \<or> (188 \<le> n \<and> n \<le> 190) \<or> (192 \<le> n \<and> n \<le> 214) \<or> (216 \<le> n \<and> n \<le> 246)
     \<or> 248 \<le> n)"

definition is_linebreak :: "char \<Rightarrow> bool" where
  \<comment> \<open>the line boundaries of \<open>str.splitlines\<close>\<close>
  "is_linebreak c = (let n = code c in (10 \<le> n \<and> n \<le> 13) \<or> (28 \<le> n \<and> n \<le> 30) \<or> n = 133)"

definition lower :: "char \<Rightarrow> char" where
  \<comment> \<open>simple case folding, as \<open>re.I\<close> compares literals\<close>
  "lower c = (let n = code c in
     if (65 \<le> n \<and> n \<le> 90) \<or> (192 \<le> n \<and> n \<le> 222 \<and> n \<noteq> 215) then char_of (n + 32) else c)"

definition newline :: char where
  "newline = CHR 0x0A"

definition carriage_return :: char where
  "carriage_return = CHR 0x0D"

text \<open>
  \<open>str.splitlines()\<close>: the text is cut at every line boundary, \<open>\r\n\<close> counting as one, and
  a boundary at the very end does not open a last empty line.
\<close>

fun splitlines_acc :: "string \<Rightarrow> string \<Rightarrow> string list" where
  "splitlines_acc cur [] = (if cur = [] then [] else [rev cur])"
| "splitlines_acc cur (c # cs) =
     (if is_linebreak c then
        (case cs of
           d # ds \<Rightarrow> if c = carriage_return \<and> d = newline
                     then rev cur # splitlines_acc [] ds
                     else rev cur # splitlines_acc [] cs
         | [] \<Rightarrow> [rev cur])
      else splitlines_acc (c # cur) cs)"

definition splitlines :: "string \<Rightarrow> string list" where
  "splitlines s = splitlines_acc [] s"

text \<open>\<open>str.split()\<close> without arguments: the maximal runs of non-whitespace characters.\<close>

fun split_acc :: "string \<Rightarrow> string \<Rightarrow> string list" where
  "split_acc cur [] = (if cur = [] then [] else [rev cur])"
| "split_acc cur (c # cs) =
     (if is_space c then (if cur = [] then split_acc [] cs else rev cur # split_acc [] cs)
      else split_acc (c # cur) cs)"

definition split :: "string \<Rightarrow> string list" where
  "split s = split_acc [] s"

text \<open>\<open>int(s)\<close> on a string of decimal digits.\<close>

definition digit_value :: "char \<Rightarrow> int" where
  "digit_value c = int (code c) - 48"

definition py_int :: "string \<Rightarrow> int" where
  "py_int s = foldl (\<lambda>acc c. 10 * acc + digit_value c) 0 s"


section \<open>Regular expressions as \<open>re.match\<close> runs them\<close>

text \<open>
  The fragment of the pattern language the program uses, with the flag \<open>re.I\<close> built in.
  \<open>rmatch r st\<close> lists the states in which \<open>r\<close> can finish when started in \<open>st\<close>, in the order
  in which the backtracking matcher tries them (greedy repetition: longest first; alternation:
  left to right; optional: with, then without). A state is the consumed text (reversed), the
  remaining text and the groups captured so far.
\<close>

datatype cclass = AnyChar | Whitespace | Digit

fun in_class :: "cclass \<Rightarrow> char \<Rightarrow> bool" where
  "in_class AnyChar c = (c \<noteq> newline)"
| "in_class Whitespace c = is_space c"
| "in_class Digit c = is_digit c"

datatype regex =
    Eps
  | Lit char
  | WordB
  | EndS
  | Class cclass
  | Star cclass
  | Plus cclass
  | Seq regex regex
  | Alt regex regex
  | Opt regex
  | Group nat regex

type_synonym groups = "nat \<rightharpoonup> string"
type_synonym mstate = "string \<times> string \<times> groups"

fun star_greedy :: "cclass \<Rightarrow> string \<Rightarrow> string \<Rightarrow> (string \<times> string) list" where
  "star_greedy cl pre [] = [(pre, [])]"
| "star_greedy cl pre (c # cs) =
     (if in_class cl c then star_greedy cl (c # pre) cs @ [(pre, c # cs)] else [(pre, c # cs)])"

definition at_boundary :: "string \<Rightarrow> string \<Rightarrow> bool" where
  \<comment> \<open>\<open>\b\<close>: exactly one of the two neighbouring positions holds a word character\<close>
  "at_boundary pre rest =
     ((case pre of [] \<Rightarrow> False | c # _ \<Rightarrow> is_word c) \<noteq> (case rest of [] \<Rightarrow> False | c # _ \<Rightarrow> is_word c))"

definition at_end :: "string \<Rightarrow> bool" where
  \<comment> \<open>\<open>$\<close>: the end of the text, or just before a newline that ends it\<close>
  "at_end rest = (rest = [] \<or> rest = [newline])"

fun rmatch :: "regex \<Rightarrow> mstate \<Rightarrow> mstate list" where
  "rmatch Eps st = [st]"
| "rmatch (Lit a) (pre, rest, g) =
     (case rest of [] \<Rightarrow> [] | c # cs \<Rightarrow> if lower c = lower a then [(c # pre, cs, g)] else [])"
| "rmatch WordB (pre, rest, g) = (if at_boundary pre rest then [(pre, rest, g)] else [])"
| "rmatch EndS (pre, rest, g) = (if at_end rest then [(pre, rest, g)] else [])"
| "rmatch (Class cl) (pre, rest, g) =
     (case rest of [] \<Rightarrow> [] | c # cs \<Rightarrow> if in_class cl c then [(c # pre, cs, g)] else [])"
| "rmatch (Star cl) (pre, rest, g) = map (\<lambda>(p, r). (p, r, g)) (star_greedy cl pre rest)"
| "rmatch (Plus cl) (pre, rest, g) =
     (case rest of [] \<Rightarrow> []
      | c # cs \<Rightarrow> if in_class cl c then map (\<lambda>(p, r). (p, r, g)) (star_greedy cl (c # pre) cs) else [])"
| "rmatch (Seq a b) st = concat (map (rmatch b) (rmatch a st))"
| "rmatch (Alt a b) st = rmatch a st @ rmatch b st"
| "rmatch (Opt a) st = rmatch a st @ [st]"
| "rmatch (Group n a) (pre, rest, g) =
     map (\<lambda>(p, r, h). (p, r, h(n \<mapsto> take (length rest - length r) rest))) (rmatch a (pre, rest, g))"

definition re_match :: "regex \<Rightarrow> string \<Rightarrow> groups option" where
  \<comment> \<open>\<open>re.match(pattern, text, re.I)\<close>: the groups of the first successful run, or \<open>None\<close>\<close>
  "re_match r s = (case rmatch r ([], s, Map.empty) of [] \<Rightarrow> None | (p, rest, g) # _ \<Rightarrow> Some g)"

fun seqs :: "regex list \<Rightarrow> regex" where
  "seqs [] = Eps"
| "seqs [r] = r"
| "seqs (r # rs) = Seq r (seqs rs)"

fun alts :: "regex list \<Rightarrow> regex" where
  "alts [] = Eps"
| "alts [r] = r"
| "alts (r # rs) = Alt r (alts rs)"

definition lits :: "string \<Rightarrow> regex" where
  "lits s = seqs (map Lit s)"


section \<open>Exceptions and loops\<close>

text \<open>
  A call either returns a value or raises. \<open>GitError\<close> stands for the version-control
  library's error class and all its subclasses, \<open>KeyError\<close> for a dictionary lookup of a
  missing key, \<open>OtherError\<close> for any exception outside those classes.
\<close>

datatype py_exception = GitError | KeyError | OtherError

type_synonym 'a result = "py_exception + 'a"

definition and_then :: "'a result \<Rightarrow> ('a \<Rightarrow> 'b result) \<Rightarrow> 'b result" where
  "and_then m f = (case m of Inl e \<Rightarrow> Inl e | Inr x \<Rightarrow> f x)"

text \<open>\<open>for x in xs: body\<close>, the body updating the loop's variables or raising.\<close>

fun for_each :: "('s \<Rightarrow> 'a \<Rightarrow> 's result) \<Rightarrow> 's \<Rightarrow> 'a list \<Rightarrow> 's result" where
  "for_each body s [] = Inr s"
| "for_each body s (x # xs) = and_then (body s x) (\<lambda>s'. for_each body s' xs)"


section \<open>Log Extractor\<close>

text \<open>
  The log query of the version-control library, \<open>Git(path).log(*arguments)\<close>, is a parameter
  of the model: given the repository path and the argument list it returns the raw output
  or raises.
\<close>

type_synonym git_log = "string \<Rightarrow> string list \<Rightarrow> string result"

definition truthy :: "string option \<Rightarrow> bool" where
  \<comment> \<open>\<open>if start_date\<close>: neither \<open>None\<close> nor the empty string\<close>
  "truthy d = (case d of None \<Rightarrow> False | Some s \<Rightarrow> s \<noteq> [])"

definition text_of :: "string option \<Rightarrow> string" where
  "text_of d = (case d of None \<Rightarrow> [] | Some s \<Rightarrow> s)"

definition after_arg :: "string option \<Rightarrow> string" where
  "after_arg start_date = ''--after='' @ [CHR 0x22] @ text_of start_date @ [CHR 0x22]"

definition before_arg :: "string option \<Rightarrow> string" where
  "before_arg end_date = ''--before='' @ [CHR 0x22] @ text_of end_date @ [CHR 0x22]"

definition except_git_error :: "string result \<Rightarrow> string result" where
  \<comment> \<open>\<open>except GitError: return ''\<close>\<close>
  "except_git_error r = (case r of Inl GitError \<Rightarrow> Inr [] | Inl e \<Rightarrow> Inl e | Inr out \<Rightarrow> Inr out)"

definition get_git_log ::
  "git_log \<Rightarrow> string \<Rightarrow> string option \<Rightarrow> string option \<Rightarrow> string list \<Rightarrow> string result" where
  "get_git_log git git_path start_date end_date args =
     except_git_error
       (if truthy start_date \<and> truthy end_date then
          git git_path ([after_arg start_date, before_arg end_date] @ args)
        else if truthy start_date then
          git git_path ([after_arg start_date] @ args)
        else if truthy end_date then
          git git_path ([before_arg end_date] @ args)
        else
          git git_path args)"


section \<open>Metric Parsers\<close>

subsection \<open>Keyword Counter\<close>

text \<open>
  The pattern is the concatenation of three strings: the raw literal \<^verbatim>\<open>r'.*\b('\<close>, the
  keyword, and the literal
  \<^verbatim>\<open>')(\b|s|z|d|es|ed|er|rs|ers|or|ors|ing|in|-)?(\b|\\s|-|_|$).*'\<close>.
  The last literal has no raw prefix: in it \<^verbatim>\<open>\b\<close> is the backspace character U+0008 and
  \<^verbatim>\<open>\\s\<close> is the two characters \<^verbatim>\<open>\s\<close>, the whitespace class. Only the \<^verbatim>\<open>\b\<close> in
  front of the keyword is a word boundary.

  The keyword is taken as literal text, which is what the pasted fragment means when the
  keyword holds none of the pattern language's special characters (\<open>plain_word\<close>). A
  keyword that holds one is read by the library as pattern syntax: it can match other text
  than the keyword, or make the whole pattern invalid, and then \<open>re.match\<close> raises
  \<open>re.error\<close>. Such keywords are outside this model: what is stated below about the match,
  or about the Keyword Counter and the Aggregator returning, is stated for keywords that
  satisfy \<open>plain_word\<close>.
\<close>

definition is_special :: "char \<Rightarrow> bool" where
  "is_special c = (c \<in> set ''.^$*+?{}[]|()'' \<or> c = CHR 0x5C)"

definition plain_word :: "string \<Rightarrow> bool" where
  "plain_word word = (\<forall>c \<in> set word. \<not> is_special c)"

definition backspace :: char where
  "backspace = CHR 0x08"

definition suffixes :: "string list" where
  "suffixes = [''s'', ''z'', ''d'', ''es'', ''ed'', ''er'', ''rs'', ''ers'', ''or'', ''ors'',
               ''ing'', ''in'', ''-'']"

definition word_pattern :: "string \<Rightarrow> regex" where
  "word_pattern word =
     seqs [Star AnyChar, WordB, Group 1 (lits word),
           Opt (Group 2 (alts (Lit backspace # map lits suffixes))),
           Group 3 (alts [Lit backspace, Class Whitespace, lits ''-'', lits ''_'', EndS]),
           Star AnyChar]"

type_synonym words = "string \<rightharpoonup> int"

definition count_message :: "string \<Rightarrow> words \<Rightarrow> string \<Rightarrow> words result" where
  \<comment> \<open>the body of the innermost loop: one keyword against one commit message\<close>
  "count_message word words message =
     (case re_match (word_pattern word) message of
        None \<Rightarrow> Inr words
      | Some m \<Rightarrow>
          (case m 1 of
             None \<Rightarrow> Inr words
           | Some _ \<Rightarrow>
               (case words word of
                  None \<Rightarrow> Inl KeyError
                | Some n \<Rightarrow> Inr (words(word \<mapsto> n + 1)))))"

definition count_words :: "string list \<Rightarrow> string list \<Rightarrow> words \<Rightarrow> words result" where
  \<comment> \<open>\<open>for word in wordlist: for message in messages: ...\<close>\<close>
  "count_words wordlist messages words =
     for_each (\<lambda>words word. for_each (count_message word) words messages) words wordlist"

definition init_words :: "string list \<Rightarrow> words" where
  "init_words wordlist = foldl (\<lambda>words word. words(word \<mapsto> 0)) Map.empty wordlist"

definition get_git_words ::
  "git_log \<Rightarrow> string list \<Rightarrow> string \<Rightarrow> string list \<Rightarrow> string option \<Rightarrow> string option \<Rightarrow> words result" where
  "get_git_words git git_paths email wordlist start_date end_date =
     for_each
       (\<lambda>words path.
          and_then (get_git_log git path start_date end_date [''--author='' @ email, ''--oneline''])
            (\<lambda>out. count_words wordlist (splitlines out) words))
       (init_words wordlist) git_paths"

subsection \<open>Churn Counter\<close>

record churn =
  files :: int
  adds :: int
  dels :: int
  max_files :: int
  max_adds :: int
  max_dels :: int

definition stat_pattern :: "string \<Rightarrow> regex" where
  \<comment> \<open>\<^verbatim>\<open>.*(\s+([0-9]+)\s+file)\<close> and its two siblings\<close>
  "stat_pattern label =
     seqs [Star AnyChar,
           Group 1 (seqs [Plus Whitespace, Group 2 (Plus Digit), Plus Whitespace, lits label])]"

definition files_pattern :: regex where
  "files_pattern = stat_pattern ''file''"

definition adds_pattern :: regex where
  "adds_pattern = stat_pattern ''inser''"

definition dels_pattern :: regex where
  "dels_pattern = stat_pattern ''delet''"

definition group2 :: "regex \<Rightarrow> string \<Rightarrow> string option" where
  \<comment> \<open>\<open>m = re.match(...)\<close>; \<open>m.group(2)\<close> when \<open>m\<close> and the group are there\<close>
  "group2 pattern line = (case re_match pattern line of None \<Rightarrow> None | Some m \<Rightarrow> m 2)"

definition churn_line :: "churn \<Rightarrow> string \<Rightarrow> churn" where
  \<comment> \<open>the body of the loop over the lines of one log\<close>
  "churn_line c line =
     (let c1 = (case group2 files_pattern line of
                  None \<Rightarrow> c
                | Some d \<Rightarrow>
                    (let c' = c\<lparr>files := files c + py_int d\<rparr>
                     in if py_int d > max_files c' then c'\<lparr>max_files := py_int d\<rparr> else c'));
          c2 = (case group2 adds_pattern line of
                  None \<Rightarrow> c1
                | Some d \<Rightarrow>
                    (let c' = c1\<lparr>adds := adds c1 + py_int d\<rparr>
                     in if py_int d > max_adds c' then c'\<lparr>max_adds := py_int d\<rparr> else c'));
          c3 = (case group2 dels_pattern line of
                  None \<Rightarrow> c2
                | Some d \<Rightarrow>
                    (let c' = c2\<lparr>dels := dels c2 + py_int d\<rparr>
                     in if py_int d > max_dels c' then c'\<lparr>max_dels := py_int d\<rparr> else c'))
      in c3)"

definition churn_lines :: "churn \<Rightarrow> string list \<Rightarrow> churn" where
  "churn_lines c lines = foldl churn_line c lines"

definition zero_churn :: churn where
  "zero_churn = \<lparr>files = 0, adds = 0, dels = 0, max_files = 0, max_adds = 0, max_dels = 0\<rparr>"

definition get_git_files_adds_dels ::
  "git_log \<Rightarrow> string list \<Rightarrow> string \<Rightarrow> string option \<Rightarrow> string option \<Rightarrow> churn result" where
  "get_git_files_adds_dels git git_paths email start_date end_date =
     for_each
       (\<lambda>c path.
          and_then (get_git_log git path start_date end_date
                      [''--author='' @ email, ''--oneline'', ''--shortstat''])
            (\<lambda>out. Inr (churn_lines c (splitlines out))))
       zero_churn git_paths"

subsection \<open>Commit Counter\<close>

definition get_git_contributor_commit_count ::
  "git_log \<Rightarrow> string list \<Rightarrow> string \<Rightarrow> string option \<Rightarrow> string option \<Rightarrow> int result" where
  "get_git_contributor_commit_count git git_paths email start_date end_date =
     and_then
       (for_each
          (\<lambda>commits path.
             and_then (get_git_log git path start_date end_date
                         [''--author='' @ email, ''--format='' @ [CHR 0x22] @ ''%H'' @ [CHR 0x22]])
               (\<lambda>out. Inr (commits @ splitlines out)))
          [] git_paths)
       (\<lambda>commits. Inr (int (length commits)))"


section \<open>Aggregator\<close>

text \<open>
  \<open>list(set(xs))\<close> lists every element of \<open>xs\<close> once, in an order the language does not
  fix. The order is a parameter \<open>set_order\<close> of the model; \<open>set_listing\<close> is what every
  such order satisfies.
\<close>

type_synonym set_order = "string list \<Rightarrow> string list"

definition set_listing :: "set_order \<Rightarrow> bool" where
  "set_listing set_order = (\<forall>xs. distinct (set_order xs) \<and> set (set_order xs) = set xs)"

definition get_git_contributor_emails ::
  "git_log \<Rightarrow> set_order \<Rightarrow> string list \<Rightarrow> string option \<Rightarrow> string option \<Rightarrow> string list result" where
  "get_git_contributor_emails git set_order git_paths start_date end_date =
     for_each
       (\<lambda>contributors path.
          and_then (get_git_log git path start_date end_date [''--format=%cE''])
            (\<lambda>committers_out.
               and_then (get_git_log git path start_date end_date [''--format=%aE''])
                 (\<lambda>authors_out.
                    Inr (set_order (split authors_out @ split committers_out @ contributors)))))
       [] git_paths"

record contributor = churn +
  email :: string
  commits :: int
  words :: words

definition get_statistics ::
  "git_log \<Rightarrow> set_order \<Rightarrow> string list \<Rightarrow> string option \<Rightarrow> string option \<Rightarrow> string list
     \<Rightarrow> contributor list result" where
  "get_statistics git set_order git_paths start_date end_date wordlist =
     and_then (get_git_contributor_emails git set_order git_paths start_date end_date)
       (for_each
          (\<lambda>stats email.
             and_then (get_git_files_adds_dels git git_paths email start_date end_date)
               (\<lambda>changes.
                  and_then (get_git_contributor_commit_count git git_paths email start_date end_date)
                    (\<lambda>commits.
                       and_then (get_git_words git git_paths email wordlist start_date end_date)
                         (\<lambda>words.
                            Inr (stats @
                              [\<lparr>files = files changes, adds = adds changes, dels = dels changes,
                                max_files = max_files changes, max_adds = max_adds changes,
                                max_dels = max_dels changes,
                                email = email, commits = commits, words = words\<rparr>])))))
          [])"


section \<open>Reporter\<close>

text \<open>
  \<open>sorted(statistics, key=..., reverse=True)\<close>: a stable sort in descending order of the key
  (records with equal keys keep their order).
\<close>

definition sorted_reverse :: "('a \<Rightarrow> int) \<Rightarrow> 'a list \<Rightarrow> 'a list" where
  "sorted_reverse key xs = rev (sort_key key (rev xs))"

text \<open>
  One section of the report, as the rows \<open>(value, email)\<close> it prints:
  \<^verbatim>\<open>for cnt, item in enumerate(by_key): if item[key] > 0 and cnt < show_top: print(...)\<close>
  The bound \<open>show_top\<close> is the parameter \<open>limit\<close>; \<open>main\<close> sets it to 10.
\<close>

definition leaderboard :: "nat \<Rightarrow> (contributor \<Rightarrow> int) \<Rightarrow> contributor list \<Rightarrow> (int \<times> string) list" where
  "leaderboard limit key statistics =
     map (\<lambda>(cnt, item). (key item, email item))
       (filter (\<lambda>(cnt, item). key item > 0 \<and> cnt < limit)
          (enumerate 0 (sorted_reverse key statistics)))"

definition show_top :: nat where
  "show_top = 10"

text \<open>The seven numeric sections, in the order in which \<open>main\<close> prints them.\<close>

definition metrics :: "(contributor \<Rightarrow> int) list" where
  "metrics = [commits, files, max_files, adds, max_adds, dels, max_dels]"

definition metric_sections :: "contributor list \<Rightarrow> (int \<times> string) list list" where
  "metric_sections statistics = map (\<lambda>key. leaderboard show_top key statistics) metrics"

text \<open>
  The section of one keyword. The sort key guards the lookup
  (\<^verbatim>\<open>d['words'][word] if word in d['words'] else 0\<close>), the loop does not
  (\<^verbatim>\<open>item['words'][word] > 0 and cnt < show_top\<close>).
\<close>

definition word_key :: "string \<Rightarrow> contributor \<Rightarrow> int" where
  "word_key word d = (case words d word of None \<Rightarrow> 0 | Some n \<Rightarrow> n)"

definition word_section :: "nat \<Rightarrow> string \<Rightarrow> contributor list \<Rightarrow> (int \<times> string) list result" where
  "word_section limit word statistics =
     for_each
       (\<lambda>rows (cnt, item).
          (case words item word of
             None \<Rightarrow> Inl KeyError
           | Some n \<Rightarrow> if n > 0 \<and> cnt < limit then Inr (rows @ [(n, email item)]) else Inr rows))
       [] (enumerate 0 (sorted_reverse (word_key word) statistics))"

definition word_sections :: "string list \<Rightarrow> contributor list \<Rightarrow> (int \<times> string) list list result" where
  "word_sections wordlist statistics =
     for_each
       (\<lambda>sections word.
          and_then (word_section show_top word statistics) (\<lambda>rows. Inr (sections @ [rows])))
       [] wordlist"

text \<open>
  \<open>main\<close>, from the point where the repositories are known to exist: the statistics of the
  year 2019, then the seven numeric sections and one section per keyword.
\<close>

definition main_report ::
  "git_log \<Rightarrow> set_order \<Rightarrow> string list \<Rightarrow> string list
     \<Rightarrow> ((int \<times> string) list list \<times> (int \<times> string) list list) result" where
  "main_report git set_order repo_paths wordlist =
     and_then (get_statistics git set_order repo_paths (Some ''2019-01-01'') (Some ''2019-12-31'') wordlist)
       (\<lambda>statistics.
          and_then (word_sections wordlist statistics)
            (\<lambda>by_word. Inr (metric_sections statistics, by_word)))"


section \<open>Notions used in the statements\<close>

text \<open>The numbers of the groups a pattern can set.\<close>

fun group_numbers :: "regex \<Rightarrow> nat set" where
  "group_numbers (Seq a b) = group_numbers a \<union> group_numbers b"
| "group_numbers (Alt a b) = group_numbers a \<union> group_numbers b"
| "group_numbers (Opt a) = group_numbers a"
| "group_numbers (Group n a) = insert n (group_numbers a)"
| "group_numbers _ = {}"

text \<open>A commit message qualifies for a keyword when the keyword's pattern matches it.\<close>

definition qualifies :: "string \<Rightarrow> string \<Rightarrow> bool" where
  "qualifies word message = (re_match (word_pattern word) message \<noteq> None)"

definition qualifying :: "string \<Rightarrow> string list \<Rightarrow> int" where
  "qualifying word messages = int (length (filter (qualifies word) messages))"

text \<open>
  What the two loops over keywords and messages add to the counts: every keyword already in
  the dictionary gains, for each time it stands in the wordlist, one per qualifying message.
\<close>

definition counted :: "string list \<Rightarrow> string list \<Rightarrow> words \<Rightarrow> words" where
  "counted wordlist messages counts =
     (\<lambda>w. map_option (\<lambda>n. n + int (count_list wordlist w) * qualifying w messages) (counts w))"

text \<open>
  The forgiving match as the specification words it: the message holds the keyword, in any
  letter case and starting at a word boundary, bare or followed by one of the suffixes, and
  right after that comes a word boundary, the two characters backslash and \<open>s\<close>, a hyphen, an
  underscore or the end of the message.
\<close>

definition ci_prefix :: "string \<Rightarrow> string \<Rightarrow> bool" where
  "ci_prefix w s = (length w \<le> length s \<and> map lower (take (length w) s) = map lower w)"

definition boundary_at :: "string \<Rightarrow> nat \<Rightarrow> bool" where
  "boundary_at s i = at_boundary (rev (take i s)) (drop i s)"

definition spec_after :: "string \<Rightarrow> nat \<Rightarrow> bool" where
  "spec_after message j =
     (boundary_at message j \<or> ci_prefix [CHR 0x5C, CHR ''s''] (drop j message)
      \<or> ci_prefix ''-'' (drop j message) \<or> ci_prefix ''_'' (drop j message)
      \<or> j = length message)"

definition spec_forgiving_match :: "string \<Rightarrow> string \<Rightarrow> bool" where
  "spec_forgiving_match word message =
     list_ex
       (\<lambda>i. boundary_at message i \<and> ci_prefix word (drop i message) \<and>
            list_ex
              (\<lambda>suffix. ci_prefix suffix (drop (i + length word) message) \<and>
                         spec_after message (i + length word + length suffix))
              ([] # suffixes))
       [0..<Suc (length message)]"

text \<open>The scenario of the specification: one author, three commit messages.\<close>

definition scenario_git :: git_log where
  "scenario_git path args = Inr (''Fix bug'' @ [newline] @ ''fixes typo'' @ [newline] @ ''refactor'')"

text \<open>The argument list of the log query for given date bounds and extra arguments.\<close>

definition log_query :: "string option \<Rightarrow> string option \<Rightarrow> string list \<Rightarrow> string list" where
  "log_query start_date end_date args =
     (if truthy start_date then [after_arg start_date] else [])
     @ (if truthy end_date then [before_arg end_date] else []) @ args"

text \<open>A log query that fails, if it fails, with the library's error class only.\<close>

definition raises_only_git_error :: "git_log \<Rightarrow> bool" where
  "raises_only_git_error git = (\<forall>path args. git path args = Inl GitError \<or> (\<exists>out. git path args = Inr out))"

text \<open>What the Log Extractor hands to the parsers: the output, or the empty text.\<close>

definition log_output ::
  "git_log \<Rightarrow> string \<Rightarrow> string option \<Rightarrow> string option \<Rightarrow> string list \<Rightarrow> string" where
  "log_output git git_path start_date end_date args =
     (case git git_path (log_query start_date end_date args) of Inl e \<Rightarrow> [] | Inr out \<Rightarrow> out)"

text \<open>
  Sample log queries: one that answers for the path \<open>repo\<close> with its own arguments and fails
  with the library's error elsewhere, and one that fails with an error of another class.
\<close>

definition sample_git :: git_log where
  "sample_git path args = (if path = ''repo'' then Inr (concat args) else Inl GitError)"

definition broken_git :: git_log where
  "broken_git path args = Inl OtherError"

text \<open>
  The scenario of the specification as a log query: the repository \<open>repo\<close> has three commits
  by \<open>a@x.com\<close> (2 files, +10, -2; 1 file, +1; 4 files, -5), \<open>b@x.com\<close> committed one of them
  and authored none; any other path is no repository.
\<close>

definition demo_shortstat :: string where
  "demo_shortstat =
     ''1a2b3c4 Fix bug'' @ [newline] @
     '' 2 files changed, 10 insertions(+), 2 deletions(-)'' @ [newline] @
     ''5d6e7f8 fixes typo'' @ [newline] @
     '' 1 file changed, 1 insertion(+)'' @ [newline] @
     ''9a8b7c6 refactor'' @ [newline] @
     '' 4 files changed, 5 deletions(-)''"

definition demo_git :: git_log where
  "demo_git path args =
     (if path \<noteq> ''repo'' then Inl GitError
      else if ''--format=%cE'' \<in> set args then
        Inr (''a@x.com'' @ [newline] @ ''b@x.com'' @ [newline] @ ''a@x.com'')
      else if ''--format=%aE'' \<in> set args then
        Inr (''a@x.com'' @ [newline] @ ''a@x.com'' @ [newline] @ ''a@x.com'')
      else if ''--author=a@x.com'' \<notin> set args then Inr []
      else if ''--shortstat'' \<in> set args then Inr demo_shortstat
      else if ''--oneline'' \<in> set args then
        Inr (''1a2b3c4 Fix bug'' @ [newline] @ ''5d6e7f8 fixes typo'' @ [newline] @ ''9a8b7c6 refactor'')
      else Inr (''1a2b3c4'' @ [newline] @ ''5d6e7f8'' @ [newline] @ ''9a8b7c6''))"

text \<open>Four sample records: commit counts 3, 0, 5 and 1.\<close>

definition demo_record :: "string \<Rightarrow> int \<Rightarrow> contributor" where
  "demo_record address n =
     \<lparr>files = 2 * n, adds = 10 * n, dels = n, max_files = n, max_adds = 4 * n, max_dels = n,
      email = address, commits = n, words = Map.empty\<rparr>"

definition demo_statistics :: "contributor list" where
  "demo_statistics =
     [demo_record ''a@x.com'' 3, demo_record ''b@x.com'' 0,
      demo_record ''c@x.com'' 5, demo_record ''d@x.com'' 1]"

text \<open>The invariant of the six numbers of the Churn Counter.\<close>

definition churn_ok :: "churn \<Rightarrow> bool" where
  "churn_ok c =
     (0 \<le> max_files c \<and> max_files c \<le> files c \<and> 0 \<le> files c
      \<and> 0 \<le> max_adds c \<and> max_adds c \<le> adds c \<and> 0 \<le> adds c
      \<and> 0 \<le> max_dels c \<and> max_dels c \<le> dels c \<and> 0 \<le> dels c)"

text \<open>
  The integer a statistics pattern matches on a line, if it matches, and the values matched
  on the lines of a log, in order.
\<close>

definition line_value :: "regex \<Rightarrow> string \<Rightarrow> int option" where
  "line_value pattern line = map_option py_int (group2 pattern line)"

definition matched_values :: "regex \<Rightarrow> string list \<Rightarrow> int list" where
  "matched_values pattern lines = List.map_filter (line_value pattern) lines"

definition value_or_zero :: "regex \<Rightarrow> string \<Rightarrow> int" where
  "value_or_zero pattern line = (case line_value pattern line of None \<Rightarrow> 0 | Some v \<Rightarrow> v)"

definition largest_or_zero :: "int list \<Rightarrow> int" where
  "largest_or_zero vs = (if vs = [] then 0 else Max (set vs))"


section \<open>Exceptions and loops: basic facts\<close>

lemma and_then_Inr [simp]: "and_then (Inr x) f = f x"
  by (simp add: and_then_def)

lemma and_then_Inl [simp]: "and_then (Inl e) f = Inl e"
  by (simp add: and_then_def)

lemma and_then_eq_Inr:
  "and_then m f = Inr y \<longleftrightarrow> (\<exists>x. m = Inr x \<and> f x = Inr y)"
  by (cases m) simp_all


lemma for_each_invariant:
  assumes "for_each body s xs = Inr s'" and "P s"
    and "\<And>s x s'. P s \<Longrightarrow> x \<in> set xs \<Longrightarrow> body s x = Inr s' \<Longrightarrow> P s'"
  shows "P s'"
  using assms
proof (induction xs arbitrary: s)
  case Nil
  then show ?case by simp
next
  case (Cons x xs)
  from Cons.prems(1) obtain s1 where s1: "body s x = Inr s1" and rest: "for_each body s1 xs = Inr s'"
    by (auto simp: and_then_eq_Inr)
  have p1: "P s1" by (rule Cons.prems(3)[OF Cons.prems(2) _ s1]) simp
  show ?case
  proof (rule Cons.IH[OF rest p1])
    fix a y b
    assume "P a" "y \<in> set xs" "body a y = Inr b"
    then show "P b" using Cons.prems(3)[of a y b] by simp
  qed
qed

lemma for_each_total:
  assumes "\<And>s x. x \<in> set xs \<Longrightarrow> \<exists>s'. body s x = Inr s'"
  shows "\<exists>s'. for_each body s xs = Inr s'"
  using assms
proof (induction xs arbitrary: s)
  case Nil
  then show ?case by simp
next
  case (Cons x xs)
  have "\<exists>s1. body s x = Inr s1" by (rule Cons.prems) simp
  then obtain s1 where s1: "body s x = Inr s1" ..
  have "\<exists>s'. for_each body s1 xs = Inr s'"
  proof (rule Cons.IH)
    fix a y
    assume "y \<in> set xs"
    then show "\<exists>b. body a y = Inr b" using Cons.prems[of y a] by simp
  qed
  with s1 show ?case by simp
qed


lemma for_each_total_invariant:
  assumes "P s"
    and "\<And>s x. P s \<Longrightarrow> x \<in> set xs \<Longrightarrow> \<exists>s'. body s x = Inr s' \<and> P s'"
  shows "\<exists>s'. for_each body s xs = Inr s' \<and> P s'"
  using assms
proof (induction xs arbitrary: s)
  case Nil
  then show ?case by simp
next
  case (Cons x xs)
  have "\<exists>s1. body s x = Inr s1 \<and> P s1" by (rule Cons.prems(2)[OF Cons.prems(1)]) simp
  then obtain s1 where s1: "body s x = Inr s1" and p1: "P s1" by blast
  have "\<exists>s'. for_each body s1 xs = Inr s' \<and> P s'"
  proof (rule Cons.IH[OF p1])
    fix a y
    assume "P a" "y \<in> set xs"
    then show "\<exists>b. body a y = Inr b \<and> P b" using Cons.prems(2)[of a y] by simp
  qed
  with s1 show ?case by simp
qed

section \<open>The matcher\<close>

lemma star_greedy_elem:
  "(p, r) \<in> set (star_greedy cl pre rest) \<Longrightarrow>
   \<exists>k\<le>length rest. r = drop k rest \<and> p = rev (take k rest) @ pre \<and> (\<forall>c\<in>set (take k rest). in_class cl c)"
proof (induction rest arbitrary: pre)
  case Nil
  then show ?case by simp
next
  case (Cons c cs)
  show ?case
  proof (cases "(p, r) = (pre, c # cs)")
    case True
    then show ?thesis by (intro exI[of _ 0]) simp
  next
    case False
    with Cons.prems have cl: "in_class cl c" and mem: "(p, r) \<in> set (star_greedy cl (c # pre) cs)"
      by (auto split: if_splits)
    from Cons.IH[OF mem] obtain k where k: "k \<le> length cs" "r = drop k cs"
      "p = rev (take k cs) @ c # pre" "\<forall>x\<in>set (take k cs). in_class cl x" by blast
    with cl show ?thesis by (intro exI[of _ "Suc k"]) simp
  qed
qed

lemma rmatch_Plus_elem:
  assumes "(p, r, h) \<in> set (rmatch (Plus cl) (pre, rest, g))"
  shows "h = g \<and> (\<exists>k. 0 < k \<and> k \<le> length rest \<and> r = drop k rest \<and> (\<forall>c\<in>set (take k rest). in_class cl c))"
proof -
  from assms obtain c cs where rest: "rest = c # cs" and cl: "in_class cl c"
    and mem: "(p, r) \<in> set (star_greedy cl (c # pre) cs)" and h: "h = g"
    by (auto split: list.splits if_splits)
  from star_greedy_elem[OF mem] obtain k where k: "k \<le> length cs" "r = drop k cs"
      "\<forall>x\<in>set (take k cs). in_class cl x" by blast
  with cl rest h show ?thesis by (intro conjI exI[of _ "Suc k"]) simp_all
qed

lemma rmatch_keeps_group:
  "(p', r', g') \<in> set (rmatch r (p, rest, g)) \<Longrightarrow> n \<notin> group_numbers r \<Longrightarrow> g' n = g n"
proof (induction r arbitrary: p rest g p' r' g')
  case (Seq a b)
  then show ?case by (auto) (metis)
next
  case (Group m a)
  then show ?case by auto
qed (auto split: list.splits if_splits)

lemma group_numbers_seqs: "group_numbers (seqs rs) = (\<Union>r\<in>set rs. group_numbers r)"
  by (induction rs rule: seqs.induct) auto

lemma group_numbers_lits: "group_numbers (lits s) = {}"
  by (simp add: lits_def group_numbers_seqs)

lemma py_int_nonneg_aux:
  "0 \<le> acc \<Longrightarrow> \<forall>c\<in>set d. is_digit c \<Longrightarrow> 0 \<le> foldl (\<lambda>acc c. 10 * acc + digit_value c) acc d"
  by (induction d arbitrary: acc) (auto simp: is_digit_def digit_value_def Let_def)

lemma py_int_nonneg: "\<forall>c\<in>set d. is_digit c \<Longrightarrow> 0 \<le> py_int d"
  unfolding py_int_def by (rule py_int_nonneg_aux) simp_all

lemma rmatch_Seq_elem:
  "st' \<in> set (rmatch (Seq a b) st) \<longleftrightarrow> (\<exists>st1\<in>set (rmatch a st). st' \<in> set (rmatch b st1))"
  by auto

lemma rmatch_Group_elem:
  "(p', r', g') \<in> set (rmatch (Group n a) (p, rest, g)) \<longleftrightarrow>
   (\<exists>h. (p', r', h) \<in> set (rmatch a (p, rest, g)) \<and> g' = h(n \<mapsto> take (length rest - length r') rest))"
  by (auto simp: image_iff) force

lemma stat_pattern_unfold:
  "stat_pattern label =
     Seq (Star AnyChar)
       (Group 1 (Seq (Plus Whitespace) (Seq (Group 2 (Plus Digit)) (Seq (Plus Whitespace) (lits label)))))"
  by (simp add: stat_pattern_def)

lemma rmatch_stat_pattern_group2:
  assumes "(p, r, g) \<in> set (rmatch (stat_pattern label) st)"
  shows "\<exists>d. g 2 = Some d \<and> d \<noteq> [] \<and> (\<forall>c\<in>set d. is_digit c)"
proof -
  let ?Y = "Seq (Plus Whitespace) (lits label)"
  let ?X = "Seq (Plus Whitespace) (Seq (Group 2 (Plus Digit)) ?Y)"
  from assms obtain st1 where "(p, r, g) \<in> set (rmatch (Group 1 ?X) st1)"
    unfolding stat_pattern_unfold rmatch_Seq_elem by blast
  moreover obtain p1 r1 g1 where "st1 = (p1, r1, g1)" by (cases st1) auto
  ultimately have "(p, r, g) \<in> set (rmatch (Group 1 ?X) (p1, r1, g1))" by simp
  then obtain h where h: "(p, r, h) \<in> set (rmatch ?X (p1, r1, g1))"
    and g: "g = h(1 \<mapsto> take (length r1 - length r) r1)"
    unfolding rmatch_Group_elem by blast
  from h obtain st2 st3 where st3: "st3 \<in> set (rmatch (Group 2 (Plus Digit)) st2)"
    and y: "(p, r, h) \<in> set (rmatch ?Y st3)"
    unfolding rmatch_Seq_elem by blast
  obtain p2 r2 g2 where st2: "st2 = (p2, r2, g2)" by (cases st2) auto
  obtain p3 r3 g3 where st3_eq: "st3 = (p3, r3, g3)" by (cases st3) auto
  from st3 have "(p3, r3, g3) \<in> set (rmatch (Group 2 (Plus Digit)) (p2, r2, g2))"
    by (simp only: st2 st3_eq)
  then obtain h3 where b: "(p3, r3, h3) \<in> set (rmatch (Plus Digit) (p2, r2, g2))"
    and g3: "g3 = h3(2 \<mapsto> take (length r2 - length r3) r2)"
    unfolding rmatch_Group_elem by blast
  from rmatch_Plus_elem[OF b] obtain k where k: "0 < k" "k \<le> length r2" "r3 = drop k r2"
    "\<forall>c\<in>set (take k r2). in_class Digit c" by blast
  have "h 2 = g3 2"
    by (rule rmatch_keeps_group[OF y[unfolded st3_eq]]) (simp add: group_numbers_lits)
  with g g3 k show ?thesis by auto
qed

lemma group2_stat_pattern:
  assumes "group2 (stat_pattern label) line = Some d"
  shows "d \<noteq> [] \<and> (\<forall>c\<in>set d. is_digit c)"
proof -
  from assms obtain p r g rs where "rmatch (stat_pattern label) ([], line, Map.empty) = (p, r, g) # rs" "g 2 = Some d"
    by (auto simp: group2_def re_match_def split: list.splits option.splits)
  then have "(p, r, g) \<in> set (rmatch (stat_pattern label) ([], line, Map.empty))" by simp
  from rmatch_stat_pattern_group2[OF this] \<open>g 2 = Some d\<close> show ?thesis by simp
qed

lemma group2_stat_pattern_matched:
  "re_match (stat_pattern label) line = Some m \<Longrightarrow> m 2 \<noteq> None"
proof -
  assume "re_match (stat_pattern label) line = Some m"
  then obtain p r rs where "rmatch (stat_pattern label) ([], line, Map.empty) = (p, r, m) # rs"
    by (auto simp: re_match_def split: list.splits)
  then have "(p, r, m) \<in> set (rmatch (stat_pattern label) ([], line, Map.empty))" by simp
  from rmatch_stat_pattern_group2[OF this] show ?thesis by auto
qed


section \<open>Churn Counter: totals and maxima\<close>

lemma churn_line_files:
  "files (churn_line c line) = files c + value_or_zero files_pattern line"
  by (simp add: churn_line_def value_or_zero_def line_value_def Let_def split: option.splits)

lemma churn_line_adds:
  "adds (churn_line c line) = adds c + value_or_zero adds_pattern line"
  by (simp add: churn_line_def value_or_zero_def line_value_def Let_def split: option.splits)

lemma churn_line_dels:
  "dels (churn_line c line) = dels c + value_or_zero dels_pattern line"
  by (simp add: churn_line_def value_or_zero_def line_value_def Let_def split: option.splits)

lemma churn_line_max_files:
  "max_files (churn_line c line) =
     (case line_value files_pattern line of None \<Rightarrow> max_files c | Some v \<Rightarrow> max (max_files c) v)"
  by (simp add: churn_line_def line_value_def Let_def max_def split: option.splits)

lemma churn_line_max_adds:
  "max_adds (churn_line c line) =
     (case line_value adds_pattern line of None \<Rightarrow> max_adds c | Some v \<Rightarrow> max (max_adds c) v)"
  by (simp add: churn_line_def line_value_def Let_def max_def split: option.splits)

lemma churn_line_max_dels:
  "max_dels (churn_line c line) =
     (case line_value dels_pattern line of None \<Rightarrow> max_dels c | Some v \<Rightarrow> max (max_dels c) v)"
  by (simp add: churn_line_def line_value_def Let_def max_def split: option.splits)

lemma sum_matched_values:
  "sum_list (matched_values pattern lines) = (\<Sum>line\<leftarrow>lines. value_or_zero pattern line)"
  by (induction lines) (auto simp: matched_values_def value_or_zero_def split: option.splits)

lemma matched_values_Nil: "matched_values pattern [] = []"
  by (simp add: matched_values_def)

lemma matched_values_Cons:
  "matched_values pattern (line # lines) =
     (case line_value pattern line of None \<Rightarrow> matched_values pattern lines
      | Some v \<Rightarrow> v # matched_values pattern lines)"
  by (simp add: matched_values_def split: option.splits)

lemma Max_insert_max:
  fixes a :: int
  assumes "finite S"
  shows "Max (insert (max a v) S) = Max (insert a (insert v S))"
proof (cases "S = {}")
  case True
  then show ?thesis by simp
next
  case False
  with assms show ?thesis by (simp add: max.assoc)
qed

lemma foldl_churn_files:
  "files (foldl churn_line c lines) = files c + sum_list (matched_values files_pattern lines)"
  by (induction lines arbitrary: c)
     (simp_all add: churn_line_files matched_values_Nil matched_values_Cons value_or_zero_def
        split: option.splits)

lemma foldl_churn_adds:
  "adds (foldl churn_line c lines) = adds c + sum_list (matched_values adds_pattern lines)"
  by (induction lines arbitrary: c)
     (simp_all add: churn_line_adds matched_values_Nil matched_values_Cons value_or_zero_def
        split: option.splits)

lemma foldl_churn_dels:
  "dels (foldl churn_line c lines) = dels c + sum_list (matched_values dels_pattern lines)"
  by (induction lines arbitrary: c)
     (simp_all add: churn_line_dels matched_values_Nil matched_values_Cons value_or_zero_def
        split: option.splits)

lemma foldl_churn_max_files:
  "max_files (foldl churn_line c lines) =
     Max (insert (max_files c) (set (matched_values files_pattern lines)))"
  by (induction lines arbitrary: c)
     (simp_all add: churn_line_max_files matched_values_Nil matched_values_Cons Max_insert_max
        split: option.splits)

lemma foldl_churn_max_adds:
  "max_adds (foldl churn_line c lines) =
     Max (insert (max_adds c) (set (matched_values adds_pattern lines)))"
  by (induction lines arbitrary: c)
     (simp_all add: churn_line_max_adds matched_values_Nil matched_values_Cons Max_insert_max
        split: option.splits)

lemma foldl_churn_max_dels:
  "max_dels (foldl churn_line c lines) =
     Max (insert (max_dels c) (set (matched_values dels_pattern lines)))"
  by (induction lines arbitrary: c)
     (simp_all add: churn_line_max_dels matched_values_Nil matched_values_Cons Max_insert_max
        split: option.splits)

lemma line_value_nonneg:
  assumes "line_value (stat_pattern label) line = Some v"
  shows "0 \<le> v"
proof -
  from assms obtain d where d: "group2 (stat_pattern label) line = Some d" and v: "v = py_int d"
    by (auto simp: line_value_def)
  from group2_stat_pattern[OF d] have "\<forall>c\<in>set d. is_digit c" by simp
  then show ?thesis unfolding v by (rule py_int_nonneg)
qed

lemma matched_values_nonneg:
  "v \<in> set (matched_values (stat_pattern label) lines) \<Longrightarrow> 0 \<le> v"
  by (induction lines)
     (auto simp: matched_values_Nil matched_values_Cons line_value_nonneg split: option.splits)

lemma Max_insert_zero:
  assumes "\<forall>v\<in>set vs. (0::int) \<le> v"
  shows "Max (insert 0 (set vs)) = largest_or_zero vs"
proof (cases vs)
  case Nil
  then show ?thesis by (simp add: largest_or_zero_def)
next
  case (Cons a as)
  then have ne: "set vs \<noteq> {}" by simp
  have "Max (set vs) \<in> set vs" using ne by (intro Max_in) simp_all
  with assms have "0 \<le> Max (set vs)" by blast
  with ne Cons show ?thesis by (simp add: largest_or_zero_def del: Max_insert max_def) (simp add: max_def)
qed

text \<open>
  Claim C1. For every sequence of shortstat log lines, the Churn Counter's cumulative total of
  each metric (files changed, insertions, deletions) is the sum of the integers its pattern
  matches on the lines, a line without a match contributing zero, and the per-commit maximum
  of each metric is the largest value matched on a single line, or 0 when no line matches.
\<close>

theorem churn_totals_and_maxima:
  "files (churn_lines zero_churn lines) = (\<Sum>line\<leftarrow>lines. value_or_zero files_pattern line)
   \<and> adds (churn_lines zero_churn lines) = (\<Sum>line\<leftarrow>lines. value_or_zero adds_pattern line)
   \<and> dels (churn_lines zero_churn lines) = (\<Sum>line\<leftarrow>lines. value_or_zero dels_pattern line)
   \<and> max_files (churn_lines zero_churn lines) = largest_or_zero (matched_values files_pattern lines)
   \<and> max_adds (churn_lines zero_churn lines) = largest_or_zero (matched_values adds_pattern lines)
   \<and> max_dels (churn_lines zero_churn lines) = largest_or_zero (matched_values dels_pattern lines)"
proof -
  have f: "\<forall>v\<in>set (matched_values files_pattern lines). 0 \<le> v"
    unfolding files_pattern_def by (blast intro: matched_values_nonneg)
  have a: "\<forall>v\<in>set (matched_values adds_pattern lines). 0 \<le> v"
    unfolding adds_pattern_def by (blast intro: matched_values_nonneg)
  have d: "\<forall>v\<in>set (matched_values dels_pattern lines). 0 \<le> v"
    unfolding dels_pattern_def by (blast intro: matched_values_nonneg)
  have z: "files zero_churn = 0" "adds zero_churn = 0" "dels zero_churn = 0"
    "max_files zero_churn = 0" "max_adds zero_churn = 0" "max_dels zero_churn = 0"
    by (simp_all add: zero_churn_def)
  show ?thesis
    unfolding churn_lines_def
    by (simp only: foldl_churn_files foldl_churn_adds foldl_churn_dels foldl_churn_max_files
         foldl_churn_max_adds foldl_churn_max_dels z Max_insert_zero[OF f] Max_insert_zero[OF a]
         Max_insert_zero[OF d] sum_matched_values) simp
qed


lemma demo_lines_values:
  "matched_values files_pattern (splitlines demo_shortstat) = [2, 1, 4]"
  "matched_values adds_pattern (splitlines demo_shortstat) = [10, 1]"
  "matched_values dels_pattern (splitlines demo_shortstat) = [2, 5]"
  "(\<Sum>line\<leftarrow>splitlines demo_shortstat. value_or_zero files_pattern line) = 7"
  "(\<Sum>line\<leftarrow>splitlines demo_shortstat. value_or_zero adds_pattern line) = 11"
  "(\<Sum>line\<leftarrow>splitlines demo_shortstat. value_or_zero dels_pattern line) = 7"
  by code_simp+

theorem churn_totals_and_maxima_witness:
  "files (churn_lines zero_churn (splitlines demo_shortstat)) = 7
   \<and> adds (churn_lines zero_churn (splitlines demo_shortstat)) = 11
   \<and> dels (churn_lines zero_churn (splitlines demo_shortstat)) = 7
   \<and> max_files (churn_lines zero_churn (splitlines demo_shortstat)) = 4
   \<and> max_adds (churn_lines zero_churn (splitlines demo_shortstat)) = 10
   \<and> max_dels (churn_lines zero_churn (splitlines demo_shortstat)) = 5"
  using churn_totals_and_maxima[of "splitlines demo_shortstat"]
  by (simp add: demo_lines_values largest_or_zero_def)


section \<open>Keyword Counter: counting\<close>

lemma word_pattern_unfold:
  "word_pattern word =
     Seq (Star AnyChar) (Seq WordB (Seq (Group 1 (lits word))
       (seqs [Opt (Group 2 (alts (Lit backspace # map lits suffixes))),
              Group 3 (alts [Lit backspace, Class Whitespace, lits ''-'', lits ''_'', EndS]),
              Star AnyChar])))"
  by (simp add: word_pattern_def)

lemma group_numbers_alts: "group_numbers (alts rs) = (\<Union>r\<in>set rs. group_numbers r)"
  by (induction rs rule: alts.induct) auto

lemma word_pattern_group1:
  assumes "(p, r, g) \<in> set (rmatch (word_pattern word) st)"
  shows "g 1 \<noteq> None"
proof -
  let ?T = "seqs [Opt (Group 2 (alts (Lit backspace # map lits suffixes))),
              Group 3 (alts [Lit backspace, Class Whitespace, lits ''-'', lits ''_'', EndS]),
              Star AnyChar]"
  from assms obtain st1 st2 st3 where
    "st3 \<in> set (rmatch (Group 1 (lits word)) st2)" and t: "(p, r, g) \<in> set (rmatch ?T st3)"
    unfolding word_pattern_unfold rmatch_Seq_elem by blast
  moreover obtain p2 r2 g2 where "st2 = (p2, r2, g2)" by (cases st2) auto
  moreover obtain p3 r3 g3 where st3: "st3 = (p3, r3, g3)" by (cases st3) auto
  ultimately have "(p3, r3, g3) \<in> set (rmatch (Group 1 (lits word)) (p2, r2, g2))" by simp
  then have g3: "g3 1 \<noteq> None" unfolding rmatch_Group_elem by auto
  have "1 \<notin> group_numbers ?T"
    by (simp add: group_numbers_alts group_numbers_lits)
  from rmatch_keeps_group[OF t[unfolded st3] this] g3 show ?thesis by simp
qed

lemma re_match_word_pattern_group1:
  "re_match (word_pattern word) message = Some m \<Longrightarrow> m 1 \<noteq> None"
proof -
  assume "re_match (word_pattern word) message = Some m"
  then obtain p r rs where "rmatch (word_pattern word) ([], message, Map.empty) = (p, r, m) # rs"
    by (auto simp: re_match_def split: list.splits)
  then have "(p, r, m) \<in> set (rmatch (word_pattern word) ([], message, Map.empty))" by simp
  then show ?thesis by (rule word_pattern_group1)
qed

lemma count_message_eq:
  "count_message word counts message =
     (if qualifies word message
      then (case counts word of None \<Rightarrow> Inl KeyError | Some n \<Rightarrow> Inr (counts(word \<mapsto> n + 1)))
      else Inr counts)"
  using re_match_word_pattern_group1[of word message]
  by (auto simp: count_message_def qualifies_def split: option.splits)

lemma qualifying_Nil: "qualifying word [] = 0"
  by (simp add: qualifying_def)

lemma qualifying_Cons:
  "qualifying word (m # ms) = (if qualifies word m then 1 else 0) + qualifying word ms"
  by (simp add: qualifying_def)

lemma qualifying_append:
  "qualifying word (xs @ ys) = qualifying word xs + qualifying word ys"
  by (simp add: qualifying_def)

lemma for_each_count_message:
  "counts word = Some n \<Longrightarrow>
   for_each (count_message word) counts messages = Inr (counts(word \<mapsto> n + qualifying word messages))"
proof (induction messages arbitrary: counts n)
  case Nil
  then show ?case by (simp add: qualifying_Nil map_upd_triv)
next
  case (Cons m ms)
  show ?case
  proof (cases "qualifies word m")
    case True
    let ?counts' = "counts(word \<mapsto> n + 1)"
    have step: "count_message word counts m = Inr ?counts'"
      using True Cons.prems by (simp add: count_message_eq)
    have "?counts' word = Some (n + 1)" by simp
    then have "for_each (count_message word) ?counts' ms
                 = Inr (?counts'(word \<mapsto> n + 1 + qualifying word ms))"
      by (rule Cons.IH)
    moreover have "n + 1 + qualifying word ms = n + qualifying word (m # ms)"
      using True by (simp add: qualifying_Cons)
    moreover have "?counts'(word \<mapsto> n + qualifying word (m # ms))
                     = counts(word \<mapsto> n + qualifying word (m # ms))"
      by (rule fun_upd_upd)
    moreover have "for_each (count_message word) counts (m # ms)
                     = for_each (count_message word) ?counts' ms"
      by (simp add: step)
    ultimately show ?thesis by (simp only:)
  next
    case False
    have step: "count_message word counts m = Inr counts"
      using False by (simp add: count_message_eq)
    have "qualifying word (m # ms) = qualifying word ms"
      using False by (simp add: qualifying_Cons)
    with Cons.IH[of counts n] Cons.prems show ?thesis by (simp add: step)
  qed
qed

lemma count_words_eq:
  "set wordlist \<subseteq> dom counts \<Longrightarrow>
   count_words wordlist messages counts = Inr (counted wordlist messages counts)"
  unfolding count_words_def
proof (induction wordlist arbitrary: counts)
  case Nil
  then show ?case by (auto simp: counted_def option.map_ident map_option_case split: option.splits)
next
  case (Cons w ws)
  then obtain n where n: "counts w = Some n" by auto
  let ?counts' = "counts(w \<mapsto> n + qualifying w messages)"
  have sub: "set ws \<subseteq> dom ?counts'" using Cons.prems by auto
  have eq: "counted ws messages ?counts' = counted (w # ws) messages counts"
    by (rule ext) (auto simp: counted_def n algebra_simps)
  have "for_each (\<lambda>counts word. for_each (count_message word) counts messages) counts (w # ws)
      = for_each (\<lambda>counts word. for_each (count_message word) counts messages) ?counts' ws"
    by (simp add: for_each_count_message[of counts w n messages, OF n])
  also have "\<dots> = Inr (counted ws messages ?counts')" by (rule Cons.IH[OF sub])
  finally show ?case by (simp only: eq)
qed


lemma init_words_aux:
  "foldl (\<lambda>counts word. counts(word \<mapsto> 0)) counts wordlist
     = (\<lambda>w. if w \<in> set wordlist then Some (0::int) else counts w)"
  by (induction wordlist arbitrary: counts) (auto simp: fun_eq_iff)

lemma init_words_eq: "init_words wordlist = (\<lambda>w. if w \<in> set wordlist then Some 0 else None)"
  by (simp add: init_words_def init_words_aux)

lemma dom_init_words: "dom (init_words wordlist) = set wordlist"
  by (auto simp: init_words_eq dom_def)

lemma dom_counted: "dom (counted wordlist messages counts) = dom counts"
  by (auto simp: counted_def dom_def)

lemma counted_counted:
  "counted wordlist ys (counted wordlist xs counts) = counted wordlist (xs @ ys) counts"
proof (rule ext)
  fix w
  show "counted wordlist ys (counted wordlist xs counts) w = counted wordlist (xs @ ys) counts w"
    by (cases "counts w") (simp_all add: counted_def qualifying_append distrib_left)
qed

lemma counted_Nil: "counted wordlist [] counts = counts"
  by (rule ext) (simp add: counted_def qualifying_Nil option.map_ident)

lemma get_git_words_dom:
  assumes "get_git_words git git_paths author wordlist start_date end_date = Inr counts"
  shows "dom counts = set wordlist"
proof (rule for_each_invariant[OF assms[unfolded get_git_words_def], where P = "\<lambda>c. dom c = set wordlist"])
  show "dom (init_words wordlist) = set wordlist" by (rule dom_init_words)
next
  fix s x s'
  assume d: "dom s = set wordlist"
    and "and_then (get_git_log git x start_date end_date [''--author='' @ author, ''--oneline''])
           (\<lambda>out. count_words wordlist (splitlines out) s) = Inr s'"
  then obtain out where "count_words wordlist (splitlines out) s = Inr s'"
    by (auto simp: and_then_eq_Inr)
  with d have "s' = counted wordlist (splitlines out) s" by (simp add: count_words_eq)
  with d show "dom s' = set wordlist" by (simp only: dom_counted)
qed


lemma count_list_distinct: "distinct xs \<Longrightarrow> x \<in> set xs \<Longrightarrow> count_list xs x = 1"
  by (induction xs) (auto simp: count_list_0_iff)

lemma counted_init_words_times:
  assumes "word \<in> set wordlist"
  shows "counted wordlist messages (init_words wordlist) word
           = Some (int (count_list wordlist word) * qualifying word messages)"
  using assms by (simp add: counted_def init_words_eq)

text \<open>
  Claim C4, as amended. Keyword counts are monotonic in the qualifying messages. For every
  wordlist of keywords that hold no pattern metacharacter and every list of commit-message
  lines, appending one more line raises the count of every keyword the line qualifies for by
  the number of times the keyword stands in the wordlist, which is exactly one when no
  keyword is repeated, and leaves the count of every keyword it does not qualify for
  unchanged. The count over a list is that number of times for each qualifying line.
\<close>

theorem keyword_count_monotonic:
  assumes "\<forall>word\<in>set wordlist. plain_word word"
  shows "\<exists>before after.
           count_words wordlist messages (init_words wordlist) = Inr before
         \<and> count_words wordlist (messages @ [line]) (init_words wordlist) = Inr after
         \<and> (\<forall>word\<in>set wordlist.
               before word = Some (int (count_list wordlist word) * qualifying word messages)
             \<and> after word = Some (int (count_list wordlist word) * qualifying word messages
                                   + (if qualifies word line then int (count_list wordlist word) else 0)))
         \<and> (distinct wordlist \<longrightarrow> (\<forall>word\<in>set wordlist. count_list wordlist word = 1))"
proof (intro exI conjI ballI impI)
  have sub: "set wordlist \<subseteq> dom (init_words wordlist)" by (simp add: dom_init_words)
  show "count_words wordlist messages (init_words wordlist)
          = Inr (counted wordlist messages (init_words wordlist))"
    by (rule count_words_eq[OF sub])
  show "count_words wordlist (messages @ [line]) (init_words wordlist)
          = Inr (counted wordlist (messages @ [line]) (init_words wordlist))"
    by (rule count_words_eq[OF sub])
next
  fix word assume w: "word \<in> set wordlist"
  show "counted wordlist messages (init_words wordlist) word
          = Some (int (count_list wordlist word) * qualifying word messages)"
    by (rule counted_init_words_times[OF w])
  show "counted wordlist (messages @ [line]) (init_words wordlist) word
          = Some (int (count_list wordlist word) * qualifying word messages
                  + (if qualifies word line then int (count_list wordlist word) else 0))"
    by (simp add: counted_init_words_times[OF w] qualifying_append qualifying_Cons qualifying_Nil
          distrib_left)
next
  fix word assume "distinct wordlist" "word \<in> set wordlist"
  then show "count_list wordlist word = 1" by (rule count_list_distinct)
qed

lemma fix_typo_facts: "qualifies ''fix'' ''fixes typo''" "qualifies ''typo'' ''fixes typo''"
  "qualifying ''fix'' [''Fix bug''] = 1" "qualifying ''typo'' [''Fix bug''] = 0"
  "plain_word ''fix''" "plain_word ''typo''"
  by code_simp+

theorem keyword_count_monotonic_witness:
  "distinct [''fix'', ''typo''] \<and> plain_word ''fix'' \<and> plain_word ''typo''
   \<and> qualifies ''fix'' ''fixes typo''
   \<and> (\<exists>before after.
         count_words [''fix'', ''typo''] [''Fix bug''] (init_words [''fix'', ''typo'']) = Inr before
       \<and> count_words [''fix'', ''typo''] ([''Fix bug''] @ [''fixes typo'']) (init_words [''fix'', ''typo'']) = Inr after
       \<and> before ''fix'' = Some 1 \<and> after ''fix'' = Some 2
       \<and> before ''typo'' = Some 0 \<and> after ''typo'' = Some 1)"
proof -
  have d: "distinct [''fix'', ''typo'']" by simp
  have p: "\<forall>word\<in>set [''fix'', ''typo'']. plain_word word" by (simp add: fix_typo_facts)
  from keyword_count_monotonic[OF p, of "[''Fix bug'']" "''fixes typo''"]
  obtain before after where
    b: "count_words [''fix'', ''typo''] [''Fix bug''] (init_words [''fix'', ''typo'']) = Inr before"
    and a: "count_words [''fix'', ''typo''] ([''Fix bug''] @ [''fixes typo'']) (init_words [''fix'', ''typo'']) = Inr after"
    and v: "\<forall>word\<in>set [''fix'', ''typo''].
               before word = Some (int (count_list [''fix'', ''typo''] word) * qualifying word [''Fix bug''])
             \<and> after word = Some (int (count_list [''fix'', ''typo''] word) * qualifying word [''Fix bug'']
                   + (if qualifies word ''fixes typo'' then int (count_list [''fix'', ''typo''] word) else 0))"
    by (elim exE conjE)
  from v have "before ''fix'' = Some 1" "after ''fix'' = Some 2"
    "before ''typo'' = Some 0" "after ''typo'' = Some 1"
    by (simp_all add: fix_typo_facts)
  with a b d fix_typo_facts show ?thesis
    by (intro conjI exI[of _ before] exI[of _ after])
qed

text \<open>
  Claim C4 as stated ("for every wordlist ... exactly one greater") fails for a wordlist that
  repeats a keyword: the loop over the wordlist meets the keyword twice, and one qualifying
  line takes its count from 0 to 2.
\<close>

theorem repeated_keyword_counted_twice:
  "(case count_words [''fix'', ''fix''] [] (init_words [''fix'', ''fix'']) of
      Inl e \<Rightarrow> None | Inr counts \<Rightarrow> counts ''fix'') = Some 0
   \<and> qualifies ''fix'' ''fix bug''
   \<and> (case count_words [''fix'', ''fix''] ([] @ [''fix bug'']) (init_words [''fix'', ''fix'']) of
      Inl e \<Rightarrow> None | Inr counts \<Rightarrow> counts ''fix'') = Some 2"
  by code_simp

text \<open>
  Claim C8. For the wordlist \<open>["fix"]\<close> and the three commit-message lines \<open>Fix bug\<close>,
  \<open>fixes typo\<close> and \<open>refactor\<close> of one author, the Keyword Counter returns the count 2 for the
  keyword \<open>fix\<close>: the first two lines qualify, the third does not.
\<close>

theorem scenario_fix_count:
  "(case get_git_words scenario_git [''repo''] ''a@x.com'' [''fix''] None None of
      Inl e \<Rightarrow> None | Inr counts \<Rightarrow> counts ''fix'') = Some 2
   \<and> splitlines (''Fix bug'' @ [newline] @ ''fixes typo'' @ [newline] @ ''refactor'')
       = [''Fix bug'', ''fixes typo'', ''refactor'']
   \<and> qualifies ''fix'' ''Fix bug'' \<and> qualifies ''fix'' ''fixes typo'' \<and> \<not> qualifies ''fix'' ''refactor''"
  by code_simp

text \<open>
  Claim C3. The Keyword Counter is to add one to a keyword's count for every line that holds
  the keyword, bare or with one of the suffixes, followed by a word boundary. The line
  \<open>fix: typo\<close> holds the bare keyword \<open>fix\<close> followed by a word boundary, so it qualifies as the
  specification words the match; the pattern of the program does not match it (after the
  keyword it accepts only a backspace character, whitespace, a hyphen, an underscore or the
  end of the line), and the count stays 0.
\<close>

theorem keyword_before_colon_not_counted:
  "spec_forgiving_match ''fix'' ''fix: typo''
   \<and> \<not> qualifies ''fix'' ''fix: typo''
   \<and> (case count_words [''fix''] [''fix: typo''] (init_words [''fix'']) of
        Inl e \<Rightarrow> None | Inr counts \<Rightarrow> counts ''fix'') = Some 0"
  by code_simp



section \<open>Log Extractor: results\<close>

lemma get_git_log_query:
  "get_git_log git path start_date end_date args
     = except_git_error (git path (log_query start_date end_date args))"
  by (simp add: get_git_log_def log_query_def)

lemma get_git_log_total:
  assumes "raises_only_git_error git"
  shows "get_git_log git path start_date end_date args
           = Inr (log_output git path start_date end_date args)"
proof -
  from assms have "git path (log_query start_date end_date args) = Inl GitError
      \<or> (\<exists>out. git path (log_query start_date end_date args) = Inr out)"
    by (simp add: raises_only_git_error_def)
  then show ?thesis
    by (auto simp: get_git_log_query log_output_def except_git_error_def)
qed

lemma count_words_Nil: "count_words wordlist [] counts = Inr counts"
  unfolding count_words_def by (induction wordlist) simp_all

text \<open>
  Claim C5, as amended. When the underlying log query raises the library's error
  (\<open>GitError\<close> or a subclass), the Log Extractor returns the empty string, which the parsers
  treat as zero contribution; when the query succeeds it returns the query's raw output; an
  exception of any other class is not caught and reaches the caller.
\<close>

theorem log_extractor_absorbs_git_errors:
  "(git path (log_query start_date end_date args) = Inl GitError
      \<longrightarrow> get_git_log git path start_date end_date args = Inr [])
   \<and> (git path (log_query start_date end_date args) = Inr out
      \<longrightarrow> get_git_log git path start_date end_date args = Inr out)
   \<and> (git path (log_query start_date end_date args) = Inl exn \<and> exn \<noteq> GitError
      \<longrightarrow> get_git_log git path start_date end_date args = Inl exn)
   \<and> churn_lines c (splitlines []) = c
   \<and> count_words wordlist (splitlines []) counts = Inr counts
   \<and> split [] = []"
  by (cases exn)
     (simp_all add: get_git_log_query except_git_error_def splitlines_def split_def
        churn_lines_def count_words_Nil)

theorem log_extractor_absorbs_git_errors_witness:
  "sample_git ''elsewhere'' (log_query None None []) = Inl GitError
   \<and> get_git_log sample_git ''elsewhere'' None None [] = Inr []
   \<and> sample_git ''repo'' (log_query None None [''--oneline'']) = Inr ''--oneline''
   \<and> get_git_log sample_git ''repo'' None None [''--oneline''] = Inr ''--oneline''
   \<and> broken_git ''repo'' (log_query None None []) = Inl OtherError \<and> OtherError \<noteq> GitError
   \<and> get_git_log broken_git ''repo'' None None [] = Inl OtherError"
proof -
  have a: "sample_git ''elsewhere'' (log_query None None []) = Inl GitError"
    by (simp add: sample_git_def)
  have b: "sample_git ''repo'' (log_query None None [''--oneline'']) = Inr ''--oneline''"
    by (simp add: sample_git_def log_query_def truthy_def)
  have c: "broken_git ''repo'' (log_query None None []) = Inl OtherError \<and> OtherError \<noteq> GitError"
    by (simp add: broken_git_def)
  from a log_extractor_absorbs_git_errors[of sample_git "''elsewhere''" None None "[]"]
  have a': "get_git_log sample_git ''elsewhere'' None None [] = Inr []" by blast
  from b log_extractor_absorbs_git_errors[of sample_git "''repo''" None None "[''--oneline'']" "''--oneline''"]
  have b': "get_git_log sample_git ''repo'' None None [''--oneline''] = Inr ''--oneline''" by blast
  from c log_extractor_absorbs_git_errors[of broken_git "''repo''" None None "[]" _ OtherError]
  have c': "get_git_log broken_git ''repo'' None None [] = Inl OtherError" by blast
  from a a' b b' c c' show ?thesis by blast
qed

text \<open>
  Claim C5 as stated ("never raises to its caller, whatever the reason of the failure") fails:
  a query that raises an exception outside the library's error class makes the Log Extractor
  raise it.
\<close>

theorem log_extractor_raises_counterexample:
  "get_git_log broken_git ''repo'' None None [] = Inl OtherError"
  by (simp add: get_git_log_def broken_git_def truthy_def except_git_error_def)

lemma truthy_iff: "truthy d \<longleftrightarrow> (\<exists>s. d = Some s \<and> s \<noteq> [])"
  by (cases d) (simp_all add: truthy_def)

lemma after_arg_Some: "after_arg (Some s) = ''--after='' @ [CHR 0x22] @ s @ [CHR 0x22]"
  by (simp add: after_arg_def text_of_def)

lemma before_arg_Some: "before_arg (Some e) = ''--before='' @ [CHR 0x22] @ e @ [CHR 0x22]"
  by (simp add: before_arg_def text_of_def)

lemma longer_list_differs: "xs @ ys = ys \<longleftrightarrow> xs = []"
  by simp

text \<open>
  Claim C6. The Log Extractor issues exactly one query, of one of four mutually exclusive
  shapes fixed by which date bounds are present (a bound is present when it is neither
  \<open>None\<close> nor the empty string): the argument \<^verbatim>\<open>--after="START"\<close> and then
  \<^verbatim>\<open>--before="END"\<close> in front of the extra arguments when both bounds are present, only the
  first when only the start is, only the second when only the end is, and the extra arguments
  alone when neither is. The four argument lists are pairwise different, and the result
  depends on the log query through the one issued only.
\<close>

theorem one_query_of_four_shapes:
  "(\<exists>!query. \<forall>git path. get_git_log git path start_date end_date args
                  = except_git_error (git path query))
   \<and> (truthy start_date \<longleftrightarrow> (\<exists>s. start_date = Some s \<and> s \<noteq> []))
   \<and> (truthy end_date \<longleftrightarrow> (\<exists>e. end_date = Some e \<and> e \<noteq> []))
   \<and> (s \<noteq> [] \<and> e \<noteq> [] \<longrightarrow>
        (\<forall>git path. get_git_log git path (Some s) (Some e) args
           = except_git_error (git path
               ([''--after='' @ [CHR 0x22] @ s @ [CHR 0x22],
                 ''--before='' @ [CHR 0x22] @ e @ [CHR 0x22]] @ args))))
   \<and> (s \<noteq> [] \<and> \<not> truthy end_date \<longrightarrow>
        (\<forall>git path. get_git_log git path (Some s) end_date args
           = except_git_error (git path ([''--after='' @ [CHR 0x22] @ s @ [CHR 0x22]] @ args))))
   \<and> (\<not> truthy start_date \<and> e \<noteq> [] \<longrightarrow>
        (\<forall>git path. get_git_log git path start_date (Some e) args
           = except_git_error (git path ([''--before='' @ [CHR 0x22] @ e @ [CHR 0x22]] @ args))))
   \<and> (\<not> truthy start_date \<and> \<not> truthy end_date \<longrightarrow>
        (\<forall>git path. get_git_log git path start_date end_date args
           = except_git_error (git path args)))
   \<and> distinct
        [[''--after='' @ [CHR 0x22] @ s @ [CHR 0x22],
          ''--before='' @ [CHR 0x22] @ e @ [CHR 0x22]] @ args,
         [''--after='' @ [CHR 0x22] @ s @ [CHR 0x22]] @ args,
         [''--before='' @ [CHR 0x22] @ e @ [CHR 0x22]] @ args,
         args]"
proof (intro conjI)
  show "\<exists>!query. \<forall>git path. get_git_log git path start_date end_date args
                  = except_git_error (git path query)"
  proof (rule ex1I)
    show "\<forall>git path. get_git_log git path start_date end_date args
            = except_git_error (git path (log_query start_date end_date args))"
      by (simp add: get_git_log_query)
  next
    fix query
    assume q: "\<forall>git path. get_git_log git path start_date end_date args
                 = except_git_error (git path query)"
    let ?probe = "\<lambda>(path::string) a. if a = query then Inr ''1'' else (Inr [] :: string result)"
    from q have "get_git_log ?probe [] start_date end_date args = except_git_error (?probe [] query)"
      by blast
    then have "except_git_error (?probe [] (log_query start_date end_date args))
                 = except_git_error (?probe [] query)"
      by (simp only: get_git_log_query)
    then show "query = log_query start_date end_date args"
      by (simp add: except_git_error_def split: if_splits)
  qed
next
  show "truthy start_date \<longleftrightarrow> (\<exists>s. start_date = Some s \<and> s \<noteq> [])" by (rule truthy_iff)
  show "truthy end_date \<longleftrightarrow> (\<exists>e. end_date = Some e \<and> e \<noteq> [])" by (rule truthy_iff)
next
  show "distinct
        [[''--after='' @ [CHR 0x22] @ s @ [CHR 0x22],
          ''--before='' @ [CHR 0x22] @ e @ [CHR 0x22]] @ args,
         [''--after='' @ [CHR 0x22] @ s @ [CHR 0x22]] @ args,
         [''--before='' @ [CHR 0x22] @ e @ [CHR 0x22]] @ args,
         args]"
  proof -
    have a: "\<And>x y. [x, y] @ args \<noteq> args" using longer_list_differs[of _ args] by blast
    have b: "\<And>x. [x] @ args \<noteq> args" using longer_list_differs[of _ args] by blast
    have c: "\<And>x y z. [x, y] @ args \<noteq> [z] @ args" by simp
    have d: "''--after='' @ [CHR 0x22] @ s @ [CHR 0x22] \<noteq> ''--before='' @ [CHR 0x22] @ e @ [CHR 0x22]"
      by simp
    from a b c d show ?thesis by (simp del: append.simps)
  qed
qed (simp_all add: get_git_log_def truthy_def after_arg_Some before_arg_Some)


theorem one_query_of_four_shapes_witness:
  "''2019-01-01'' \<noteq> [] \<and> ''2019-12-31'' \<noteq> [] \<and> \<not> truthy None \<and> \<not> truthy (Some [])
   \<and> get_git_log sample_git ''repo'' (Some ''2019-01-01'') (Some ''2019-12-31'') [''--oneline'']
       = Inr (''--after='' @ [CHR 0x22] @ ''2019-01-01'' @ [CHR 0x22]
              @ ''--before='' @ [CHR 0x22] @ ''2019-12-31'' @ [CHR 0x22] @ ''--oneline'')
   \<and> get_git_log sample_git ''repo'' (Some ''2019-01-01'') None [''--oneline'']
       = Inr (''--after='' @ [CHR 0x22] @ ''2019-01-01'' @ [CHR 0x22] @ ''--oneline'')
   \<and> get_git_log sample_git ''repo'' (Some []) (Some ''2019-12-31'') [''--oneline'']
       = Inr (''--before='' @ [CHR 0x22] @ ''2019-12-31'' @ [CHR 0x22] @ ''--oneline'')
   \<and> get_git_log sample_git ''repo'' None None [''--oneline''] = Inr ''--oneline''"
proof -
  have t: "''2019-01-01'' \<noteq> []" "''2019-12-31'' \<noteq> []" "\<not> truthy None" "\<not> truthy (Some [])"
    by (simp_all add: truthy_def)
  have e: "\<And>q. except_git_error (sample_git ''repo'' q) = Inr (concat q)"
    by (simp add: except_git_error_def sample_git_def)
  from t one_query_of_four_shapes[of "Some ''2019-01-01''" "Some ''2019-12-31''" "[''--oneline'']"
         "''2019-01-01''" "''2019-12-31''"]
  have a: "get_git_log sample_git ''repo'' (Some ''2019-01-01'') (Some ''2019-12-31'') [''--oneline'']
       = Inr (''--after='' @ [CHR 0x22] @ ''2019-01-01'' @ [CHR 0x22]
              @ ''--before='' @ [CHR 0x22] @ ''2019-12-31'' @ [CHR 0x22] @ ''--oneline'')"
    by (simp add: e)
  from t one_query_of_four_shapes[of "Some ''2019-01-01''" None "[''--oneline'']"
         "''2019-01-01''" "''2019-12-31''"]
  have b: "get_git_log sample_git ''repo'' (Some ''2019-01-01'') None [''--oneline'']
       = Inr (''--after='' @ [CHR 0x22] @ ''2019-01-01'' @ [CHR 0x22] @ ''--oneline'')"
    by (simp add: e)
  from t one_query_of_four_shapes[of "Some []" "Some ''2019-12-31''" "[''--oneline'']"
         "''2019-01-01''" "''2019-12-31''"]
  have c: "get_git_log sample_git ''repo'' (Some []) (Some ''2019-12-31'') [''--oneline'']
       = Inr (''--before='' @ [CHR 0x22] @ ''2019-12-31'' @ [CHR 0x22] @ ''--oneline'')"
    by (simp add: e)
  from t one_query_of_four_shapes[of None None "[''--oneline'']" "''2019-01-01''" "''2019-12-31''"]
  have d: "get_git_log sample_git ''repo'' None None [''--oneline''] = Inr ''--oneline''"
    by (simp add: e)
  from t a b c d show ?thesis by (intro conjI)
qed

section \<open>Churn Counter: invariant\<close>

lemma value_or_zero_nonneg: "0 \<le> value_or_zero (stat_pattern label) line"
  by (auto simp: value_or_zero_def line_value_nonneg split: option.splits)

lemma churn_ok_line:
  assumes "churn_ok c"
  shows "churn_ok (churn_line c line)"
proof -
  have f: "0 \<le> value_or_zero files_pattern line" and a: "0 \<le> value_or_zero adds_pattern line"
    and d: "0 \<le> value_or_zero dels_pattern line"
    unfolding files_pattern_def adds_pattern_def dels_pattern_def by (rule value_or_zero_nonneg)+
  have mf: "max_files (churn_line c line) = max (max_files c) (value_or_zero files_pattern line)
      \<or> max_files (churn_line c line) = max_files c"
    by (simp add: churn_line_max_files value_or_zero_def split: option.splits)
  have ma: "max_adds (churn_line c line) = max (max_adds c) (value_or_zero adds_pattern line)
      \<or> max_adds (churn_line c line) = max_adds c"
    by (simp add: churn_line_max_adds value_or_zero_def split: option.splits)
  have md: "max_dels (churn_line c line) = max (max_dels c) (value_or_zero dels_pattern line)
      \<or> max_dels (churn_line c line) = max_dels c"
    by (simp add: churn_line_max_dels value_or_zero_def split: option.splits)
  from assms f a d mf ma md show ?thesis
    unfolding churn_ok_def churn_line_files churn_line_adds churn_line_dels by linarith
qed

lemma churn_ok_lines: "churn_ok c \<Longrightarrow> churn_ok (churn_lines c lines)"
  unfolding churn_lines_def by (induction lines arbitrary: c) (simp_all add: churn_ok_line)

lemma churn_ok_zero: "churn_ok zero_churn"
  by (simp add: churn_ok_def zero_churn_def)

text \<open>
  Claim C9. For every input log text and each of the three metrics, the per-commit maximum the
  Churn Counter returns never exceeds the cumulative total, and all six numbers are
  non-negative. The same holds for whatever the counter returns over several repositories,
  and it does return when log queries fail with the library's error only.
\<close>

theorem churn_maxima_within_totals:
  "churn_ok (churn_lines zero_churn (splitlines text))
   \<and> (get_git_files_adds_dels git git_paths author start_date end_date = Inr c \<longrightarrow> churn_ok c)
   \<and> (raises_only_git_error git \<longrightarrow>
        (\<exists>c. get_git_files_adds_dels git git_paths author start_date end_date = Inr c))"
proof (intro conjI impI)
  show "churn_ok (churn_lines zero_churn (splitlines text))"
    by (rule churn_ok_lines[OF churn_ok_zero])
next
  assume r: "get_git_files_adds_dels git git_paths author start_date end_date = Inr c"
  show "churn_ok c"
  proof (rule for_each_invariant[OF r[unfolded get_git_files_adds_dels_def], where P = churn_ok])
    show "churn_ok zero_churn" by (rule churn_ok_zero)
  next
    fix s x s'
    assume "churn_ok s"
      and "and_then (get_git_log git x start_date end_date
                       [''--author='' @ author, ''--oneline'', ''--shortstat''])
             (\<lambda>out. Inr (churn_lines s (splitlines out))) = Inr s'"
    then show "churn_ok s'" by (auto simp: and_then_eq_Inr churn_ok_lines)
  qed
next
  assume g: "raises_only_git_error git"
  show "\<exists>c. get_git_files_adds_dels git git_paths author start_date end_date = Inr c"
    unfolding get_git_files_adds_dels_def
    by (rule for_each_total) (simp add: get_git_log_total[OF g])
qed


lemma demo_git_errors: "raises_only_git_error demo_git"
  by (auto simp: raises_only_git_error_def demo_git_def)

lemma demo_git_churn:
  "get_git_files_adds_dels demo_git [''repo'', ''gone''] ''a@x.com'' None None
     = Inr \<lparr>files = 7, adds = 11, dels = 7, max_files = 4, max_adds = 10, max_dels = 5\<rparr>"
  by code_simp

theorem churn_maxima_within_totals_witness:
  "raises_only_git_error demo_git
   \<and> get_git_files_adds_dels demo_git [''repo'', ''gone''] ''a@x.com'' None None
       = Inr \<lparr>files = 7, adds = 11, dels = 7, max_files = 4, max_adds = 10, max_dels = 5\<rparr>
   \<and> churn_ok \<lparr>files = 7, adds = 11, dels = 7, max_files = 4, max_adds = 10, max_dels = 5\<rparr>"
  using churn_maxima_within_totals[of _ demo_git "[''repo'', ''gone'']" "''a@x.com''" None None
          "\<lparr>files = 7, adds = 11, dels = 7, max_files = 4, max_adds = 10, max_dels = 5\<rparr>"]
    demo_git_churn demo_git_errors
  by blast



section \<open>The counters over several repositories\<close>

text \<open>
  When log queries fail with the library's error only (and, for the Keyword Counter, the
  keywords hold no pattern metacharacter), the Churn Counter and the Keyword Counter over a
  list of repositories are the counters over the lines of all their logs, in order.
\<close>

lemma churn_lines_append: "churn_lines c (xs @ ys) = churn_lines (churn_lines c xs) ys"
  by (simp add: churn_lines_def)

lemma churn_loop_eq:
  assumes g: "raises_only_git_error git"
  shows "for_each
       (\<lambda>c path.
          and_then (get_git_log git path start_date end_date args)
            (\<lambda>out. Inr (churn_lines c (splitlines out))))
       c git_paths
     = Inr (churn_lines c
         (concat (map (\<lambda>path. splitlines (log_output git path start_date end_date args)) git_paths)))"
proof (induction git_paths arbitrary: c)
  case Nil
  then show ?case by (simp add: churn_lines_def)
next
  case (Cons p ps)
  have step: "and_then (get_git_log git p start_date end_date args)
                (\<lambda>out. Inr (churn_lines c (splitlines out)))
              = Inr (churn_lines c (splitlines (log_output git p start_date end_date args)))"
    by (simp add: get_git_log_total[OF g])
  show ?case
    by (simp only: for_each.simps step and_then_Inr Cons.IH list.map concat.simps
          churn_lines_append)
qed

lemma get_git_files_adds_dels_eq:
  assumes "raises_only_git_error git"
  shows "get_git_files_adds_dels git git_paths author start_date end_date
     = Inr (churn_lines zero_churn
         (concat (map (\<lambda>path. splitlines (log_output git path start_date end_date
                      [''--author='' @ author, ''--oneline'', ''--shortstat''])) git_paths)))"
  unfolding get_git_files_adds_dels_def by (rule churn_loop_eq[OF assms])

lemma words_loop_eq:
  assumes g: "raises_only_git_error git" and d: "set wordlist \<subseteq> dom counts"
    and plain: "\<forall>word\<in>set wordlist. plain_word word"
  shows "for_each
       (\<lambda>counts path.
          and_then (get_git_log git path start_date end_date args)
            (\<lambda>out. count_words wordlist (splitlines out) counts))
       counts git_paths
     = Inr (counted wordlist
         (concat (map (\<lambda>path. splitlines (log_output git path start_date end_date args)) git_paths))
         counts)"
  using d
proof (induction git_paths arbitrary: counts)
  case Nil
  then show ?case by (simp add: counted_Nil)
next
  case (Cons p ps)
  let ?ms = "splitlines (log_output git p start_date end_date args)"
  have d': "set wordlist \<subseteq> dom (counted wordlist ?ms counts)"
    using Cons.prems by (simp only: dom_counted)
  have step: "and_then (get_git_log git p start_date end_date args)
                (\<lambda>out. count_words wordlist (splitlines out) counts)
              = Inr (counted wordlist ?ms counts)"
    by (simp add: get_git_log_total[OF g] count_words_eq[OF Cons.prems])
  show ?case
    by (simp only: for_each.simps step and_then_Inr Cons.IH[OF d'] list.map concat.simps
          counted_counted)
qed

lemma get_git_words_eq:
  assumes "raises_only_git_error git" and "\<forall>word\<in>set wordlist. plain_word word"
  shows "get_git_words git git_paths author wordlist start_date end_date
     = Inr (counted wordlist
         (concat (map (\<lambda>path. splitlines (log_output git path start_date end_date
                      [''--author='' @ author, ''--oneline''])) git_paths))
         (init_words wordlist))"
  unfolding get_git_words_def
  by (rule words_loop_eq[OF assms(1) _ assms(2)]) (simp add: dom_init_words)


section \<open>Aggregator: discovery and records\<close>

lemma get_git_files_adds_dels_total:
  assumes "raises_only_git_error git"
  shows "\<exists>c. get_git_files_adds_dels git git_paths author start_date end_date = Inr c"
  unfolding get_git_files_adds_dels_def
  by (rule for_each_total) (simp add: get_git_log_total[OF assms])

lemma get_git_contributor_commit_count_total:
  assumes "raises_only_git_error git"
  shows "\<exists>n. get_git_contributor_commit_count git git_paths author start_date end_date = Inr n"
proof -
  have "\<exists>cs. for_each
          (\<lambda>commits path.
             and_then (get_git_log git path start_date end_date
                         [''--author='' @ author, ''--format='' @ [CHR 0x22] @ ''%H'' @ [CHR 0x22]])
               (\<lambda>out. Inr (commits @ splitlines out)))
          [] git_paths = Inr cs"
    by (rule for_each_total) (simp add: get_git_log_total[OF assms])
  then show ?thesis unfolding get_git_contributor_commit_count_def by auto
qed

lemma get_git_words_total:
  assumes "raises_only_git_error git" and "\<forall>word\<in>set wordlist. plain_word word"
  shows "\<exists>counts. get_git_words git git_paths author wordlist start_date end_date = Inr counts
            \<and> dom counts = set wordlist"
  unfolding get_git_words_def
proof (rule for_each_total_invariant[where P = "\<lambda>c. dom c = set wordlist"])
  show "dom (init_words wordlist) = set wordlist" by (rule dom_init_words)
next
  fix s :: words and x
  assume d: "dom s = set wordlist"
  then have "set wordlist \<subseteq> dom s" by simp
  then show "\<exists>s'. and_then (get_git_log git x start_date end_date [''--author='' @ author, ''--oneline''])
                 (\<lambda>out. count_words wordlist (splitlines out) s) = Inr s' \<and> dom s' = set wordlist"
    using d by (simp add: get_git_log_total[OF assms(1)] count_words_eq dom_counted)
qed

lemma emails_loop:
  fixes git :: git_log
  defines "body \<equiv> \<lambda>set_order start_date end_date contributors path.
              and_then (get_git_log git path start_date end_date [''--format=%cE''])
                (\<lambda>committers_out.
                   and_then (get_git_log git path start_date end_date [''--format=%aE''])
                     (\<lambda>authors_out.
                        Inr (set_order (split authors_out @ split committers_out @ contributors))))"
  assumes o: "set_listing set_order" and g: "raises_only_git_error git" and d: "distinct acc"
  shows "\<exists>cs. for_each (body set_order start_date end_date) acc git_paths = Inr cs
         \<and> distinct cs
         \<and> set cs = set acc \<union>
             (\<Union>path\<in>set git_paths.
                set (split (log_output git path start_date end_date [''--format=%cE'']))
                \<union> set (split (log_output git path start_date end_date [''--format=%aE''])))"
  using d
proof (induction git_paths arbitrary: acc)
  case Nil
  then show ?case by simp
next
  case (Cons p ps)
  let ?acc' = "set_order (split (log_output git p start_date end_date [''--format=%aE''])
                 @ split (log_output git p start_date end_date [''--format=%cE'']) @ acc)"
  from o have d': "distinct ?acc'" and s': "set ?acc' =
      set (split (log_output git p start_date end_date [''--format=%aE'']))
      \<union> set (split (log_output git p start_date end_date [''--format=%cE''])) \<union> set acc"
    by (simp_all add: set_listing_def Un_assoc)
  from Cons.IH[OF d'] obtain cs where
    cs: "for_each (body set_order start_date end_date) ?acc' ps = Inr cs" and dc: "distinct cs"
    and sc: "set cs = set ?acc' \<union>
             (\<Union>path\<in>set ps.
                set (split (log_output git path start_date end_date [''--format=%cE'']))
                \<union> set (split (log_output git path start_date end_date [''--format=%aE''])))"
    by blast
  have step: "body set_order start_date end_date acc p = Inr ?acc'"
    by (simp add: body_def get_git_log_total[OF g])
  show ?case
  proof (intro exI[of _ cs] conjI)
    show "for_each (body set_order start_date end_date) acc (p # ps) = Inr cs"
      by (simp only: for_each.simps step and_then_Inr cs)
    show "distinct cs" by (rule dc)
    show "set cs = set acc \<union>
             (\<Union>path\<in>set (p # ps).
                set (split (log_output git path start_date end_date [''--format=%cE'']))
                \<union> set (split (log_output git path start_date end_date [''--format=%aE''])))"
      unfolding sc s' by auto
  qed
qed

lemma get_git_contributor_emails_ok:
  assumes "set_listing set_order" and "raises_only_git_error git"
  shows "\<exists>cs. get_git_contributor_emails git set_order git_paths start_date end_date = Inr cs
         \<and> distinct cs
         \<and> set cs =
             (\<Union>path\<in>set git_paths.
                set (split (log_output git path start_date end_date [''--format=%cE'']))
                \<union> set (split (log_output git path start_date end_date [''--format=%aE''])))"
  using emails_loop[OF assms, of "[]" start_date end_date git_paths]
  by (simp add: get_git_contributor_emails_def)



lemma statistics_loop:
  fixes git :: git_log
  defines "body \<equiv> \<lambda>git_paths start_date end_date wordlist stats email.
             and_then (get_git_files_adds_dels git git_paths email start_date end_date)
               (\<lambda>changes.
                  and_then (get_git_contributor_commit_count git git_paths email start_date end_date)
                    (\<lambda>commits.
                       and_then (get_git_words git git_paths email wordlist start_date end_date)
                         (\<lambda>words.
                            Inr (stats @
                              [\<lparr>files = files changes, adds = adds changes, dels = dels changes,
                                max_files = max_files changes, max_adds = max_adds changes,
                                max_dels = max_dels changes,
                                email = email, commits = commits, words = words\<rparr>]))))"
  assumes g: "raises_only_git_error git" and plain: "\<forall>word\<in>set wordlist. plain_word word"
  shows "\<exists>stats. for_each (body git_paths start_date end_date wordlist) acc cs = Inr stats
           \<and> map email stats = map email acc @ cs"
proof (induction cs arbitrary: acc)
  case Nil
  then show ?case by simp
next
  case (Cons c cs)
  from get_git_files_adds_dels_total[OF g] obtain changes where
    a: "get_git_files_adds_dels git git_paths c start_date end_date = Inr changes" by blast
  from get_git_contributor_commit_count_total[OF g] obtain n where
    b: "get_git_contributor_commit_count git git_paths c start_date end_date = Inr n" by blast
  from get_git_words_total[OF g plain] obtain counts where
    w: "get_git_words git git_paths c wordlist start_date end_date = Inr counts" by blast
  let ?r = "\<lparr>files = files changes, adds = adds changes, dels = dels changes,
             max_files = max_files changes, max_adds = max_adds changes,
             max_dels = max_dels changes, email = c, commits = n, words = counts\<rparr>"
  have step: "body git_paths start_date end_date wordlist acc c = Inr (acc @ [?r])"
    by (simp add: body_def a b w)
  from Cons.IH[of "acc @ [?r]"] obtain stats where
    l: "for_each (body git_paths start_date end_date wordlist) (acc @ [?r]) cs = Inr stats"
    and m: "map email stats = map email (acc @ [?r]) @ cs" by blast
  have "for_each (body git_paths start_date end_date wordlist) acc (c # cs) = Inr stats"
    by (simp only: for_each.simps step and_then_Inr l)
  moreover have "map email stats = map email acc @ c # cs"
    unfolding m by simp
  ultimately show ?case by blast
qed


lemma get_statistics_words_dom:
  assumes "get_statistics git set_order git_paths start_date end_date wordlist = Inr statistics"
    and "item \<in> set statistics"
  shows "dom (words item) = set wordlist"
proof -
  from assms(1) obtain cs where loop: "for_each
          (\<lambda>stats email.
             and_then (get_git_files_adds_dels git git_paths email start_date end_date)
               (\<lambda>changes.
                  and_then (get_git_contributor_commit_count git git_paths email start_date end_date)
                    (\<lambda>commits.
                       and_then (get_git_words git git_paths email wordlist start_date end_date)
                         (\<lambda>words.
                            Inr (stats @
                              [\<lparr>files = files changes, adds = adds changes, dels = dels changes,
                                max_files = max_files changes, max_adds = max_adds changes,
                                max_dels = max_dels changes,
                                email = email, commits = commits, words = words\<rparr>])))))
          [] cs = Inr statistics"
    unfolding get_statistics_def by (auto simp: and_then_eq_Inr)
  have "\<forall>r\<in>set statistics. dom (words r) = set wordlist"
  proof (rule for_each_invariant[OF loop, where P = "\<lambda>stats. \<forall>r\<in>set stats. dom (words r) = set wordlist"])
    show "\<forall>r\<in>set []. dom (words r) = set wordlist" by simp
  next
    fix s :: "contributor list" and x s'
    assume p: "\<forall>r\<in>set s. dom (words r) = set wordlist"
      and "and_then (get_git_files_adds_dels git git_paths x start_date end_date)
               (\<lambda>changes.
                  and_then (get_git_contributor_commit_count git git_paths x start_date end_date)
                    (\<lambda>commits.
                       and_then (get_git_words git git_paths x wordlist start_date end_date)
                         (\<lambda>words.
                            Inr (s @
                              [\<lparr>files = files changes, adds = adds changes, dels = dels changes,
                                max_files = max_files changes, max_adds = max_adds changes,
                                max_dels = max_dels changes,
                                email = x, commits = commits, words = words\<rparr>])))) = Inr s'"
    then obtain r counts where
      w: "get_git_words git git_paths x wordlist start_date end_date = Inr counts"
      and s': "s' = s @ [r]" and r: "words r = counts"
      unfolding and_then_eq_Inr by force
    from get_git_words_dom[OF w] p show "\<forall>r\<in>set s'. dom (words r) = set wordlist"
      unfolding s' by (simp add: r)
  qed
  with assms(2) show ?thesis by blast
qed


lemma statistics_loop_emails:
  fixes git :: git_log
  defines "body \<equiv> \<lambda>git_paths start_date end_date wordlist stats email.
             and_then (get_git_files_adds_dels git git_paths email start_date end_date)
               (\<lambda>changes.
                  and_then (get_git_contributor_commit_count git git_paths email start_date end_date)
                    (\<lambda>commits.
                       and_then (get_git_words git git_paths email wordlist start_date end_date)
                         (\<lambda>words.
                            Inr (stats @
                              [\<lparr>files = files changes, adds = adds changes, dels = dels changes,
                                max_files = max_files changes, max_adds = max_adds changes,
                                max_dels = max_dels changes,
                                email = email, commits = commits, words = words\<rparr>]))))"
  assumes "for_each (body git_paths start_date end_date wordlist) acc cs = Inr stats"
  shows "map email stats = map email acc @ cs"
  using assms(2)
proof (induction cs arbitrary: acc)
  case Nil
  then show ?case by simp
next
  case (Cons c cs)
  from Cons.prems obtain s1 where
    step: "body git_paths start_date end_date wordlist acc c = Inr s1"
    and rest: "for_each (body git_paths start_date end_date wordlist) s1 cs = Inr stats"
    by (auto simp: and_then_eq_Inr)
  from step obtain r where s1: "s1 = acc @ [r]" and r: "email r = c"
    unfolding body_def and_then_eq_Inr by force
  from Cons.IH[OF rest] show ?case by (simp add: s1 r)
qed

lemma get_statistics_emails:
  assumes cs: "get_git_contributor_emails git set_order git_paths start_date end_date = Inr cs"
    and st: "get_statistics git set_order git_paths start_date end_date wordlist = Inr stats"
  shows "map email stats = cs"
proof -
  have "get_statistics git set_order git_paths start_date end_date wordlist
     = for_each
          (\<lambda>stats email.
             and_then (get_git_files_adds_dels git git_paths email start_date end_date)
               (\<lambda>changes.
                  and_then (get_git_contributor_commit_count git git_paths email start_date end_date)
                    (\<lambda>commits.
                       and_then (get_git_words git git_paths email wordlist start_date end_date)
                         (\<lambda>words.
                            Inr (stats @
                              [\<lparr>files = files changes, adds = adds changes, dels = dels changes,
                                max_files = max_files changes, max_adds = max_adds changes,
                                max_dels = max_dels changes,
                                email = email, commits = commits, words = words\<rparr>])))))
          [] cs"
    unfolding get_statistics_def cs by (rule and_then_Inr)
  with st have "for_each
          (\<lambda>stats email.
             and_then (get_git_files_adds_dels git git_paths email start_date end_date)
               (\<lambda>changes.
                  and_then (get_git_contributor_commit_count git git_paths email start_date end_date)
                    (\<lambda>commits.
                       and_then (get_git_words git git_paths email wordlist start_date end_date)
                         (\<lambda>words.
                            Inr (stats @
                              [\<lparr>files = files changes, adds = adds changes, dels = dels changes,
                                max_files = max_files changes, max_adds = max_adds changes,
                                max_dels = max_dels changes,
                                email = email, commits = commits, words = words\<rparr>])))))
          [] cs = Inr stats"
    by (simp only:)
  from statistics_loop_emails[OF this] show ?thesis by simp
qed

lemma get_statistics_ok:
  assumes g: "raises_only_git_error git"
    and cs: "get_git_contributor_emails git set_order git_paths start_date end_date = Inr cs"
    and plain: "\<forall>word\<in>set wordlist. plain_word word"
  shows "\<exists>stats. get_statistics git set_order git_paths start_date end_date wordlist = Inr stats
           \<and> map email stats = cs"
proof -
  have e: "map email ([] :: contributor list) @ cs = cs" by simp
  have "get_statistics git set_order git_paths start_date end_date wordlist
     = for_each
          (\<lambda>stats email.
             and_then (get_git_files_adds_dels git git_paths email start_date end_date)
               (\<lambda>changes.
                  and_then (get_git_contributor_commit_count git git_paths email start_date end_date)
                    (\<lambda>commits.
                       and_then (get_git_words git git_paths email wordlist start_date end_date)
                         (\<lambda>words.
                            Inr (stats @
                              [\<lparr>files = files changes, adds = adds changes, dels = dels changes,
                                max_files = max_files changes, max_adds = max_adds changes,
                                max_dels = max_dels changes,
                                email = email, commits = commits, words = words\<rparr>])))))
          [] cs"
    unfolding get_statistics_def cs by (rule and_then_Inr)
  then show ?thesis
    using statistics_loop[OF g plain, where git_paths = git_paths and start_date = start_date
        and end_date = end_date and acc = "[]" and cs = cs]
    unfolding e by (simp only:)
qed

text \<open>
  Claim C7. Contributor discovery returns the deduplicated union of the committer-email and
  author-email identities of all configured repositories: every email in the committer-format
  or author-format log output of any repository is in the result, each once, and the records
  the Aggregator builds are exactly one per discovered contributor, in the same order. This
  holds for every order in which a set may be listed, when log queries fail with the
  library's error only. The Aggregator does build its records when the keywords hold no
  pattern metacharacter.
\<close>

theorem contributor_discovery:
  assumes "set_listing set_order" and "raises_only_git_error git"
  shows "\<exists>contributors.
           get_git_contributor_emails git set_order git_paths start_date end_date = Inr contributors
         \<and> distinct contributors
         \<and> set contributors =
             (\<Union>path\<in>set git_paths.
                set (split (log_output git path start_date end_date [''--format=%cE'']))
                \<union> set (split (log_output git path start_date end_date [''--format=%aE''])))
         \<and> (\<forall>statistics.
               get_statistics git set_order git_paths start_date end_date wordlist = Inr statistics
               \<longrightarrow> map email statistics = contributors)
         \<and> ((\<forall>word\<in>set wordlist. plain_word word) \<longrightarrow>
               (\<exists>statistics.
                  get_statistics git set_order git_paths start_date end_date wordlist
                    = Inr statistics))"
proof -
  from get_git_contributor_emails_ok[OF assms, where git_paths = git_paths
      and start_date = start_date and end_date = end_date] obtain cs where
    cs: "get_git_contributor_emails git set_order git_paths start_date end_date = Inr cs"
    and d: "distinct cs"
    and s: "set cs =
             (\<Union>path\<in>set git_paths.
                set (split (log_output git path start_date end_date [''--format=%cE'']))
                \<union> set (split (log_output git path start_date end_date [''--format=%aE''])))"
    by (elim exE conjE)
  have one: "\<forall>statistics.
               get_statistics git set_order git_paths start_date end_date wordlist = Inr statistics
               \<longrightarrow> map email statistics = cs"
    by (intro allI impI) (rule get_statistics_emails[OF cs])
  have ret: "(\<forall>word\<in>set wordlist. plain_word word) \<longrightarrow>
               (\<exists>statistics.
                  get_statistics git set_order git_paths start_date end_date wordlist
                    = Inr statistics)"
  proof
    assume plain: "\<forall>word\<in>set wordlist. plain_word word"
    from get_statistics_ok[OF assms(2) cs plain] obtain stats where
      "get_statistics git set_order git_paths start_date end_date wordlist = Inr stats"
      by (elim exE conjE)
    then show "\<exists>statistics.
                  get_statistics git set_order git_paths start_date end_date wordlist
                    = Inr statistics" ..
  qed
  show ?thesis
    by (rule exI[of _ cs]) (intro conjI cs d s one ret)
qed

lemma set_listing_remdups: "set_listing remdups"
  by (simp add: set_listing_def)

lemma demo_git_emails:
  "get_git_contributor_emails demo_git remdups [''repo'', ''gone''] None None
     = Inr [''b@x.com'', ''a@x.com'']"
  by code_simp

theorem contributor_discovery_witness:
  "set_listing remdups \<and> raises_only_git_error demo_git \<and> plain_word ''fix''
   \<and> get_git_contributor_emails demo_git remdups [''repo'', ''gone''] None None
       = Inr [''b@x.com'', ''a@x.com'']
   \<and> (\<exists>statistics.
         get_statistics demo_git remdups [''repo'', ''gone''] None None [''fix''] = Inr statistics
       \<and> map email statistics = [''b@x.com'', ''a@x.com''])"
proof -
  have p: "\<forall>word\<in>set [''fix'']. plain_word word" by (simp add: fix_typo_facts)
  from contributor_discovery[OF set_listing_remdups demo_git_errors,
      where git_paths = "[''repo'', ''gone'']" and start_date = None and end_date = None
        and wordlist = "[''fix'']"]
  obtain contributors where
    c: "get_git_contributor_emails demo_git remdups [''repo'', ''gone''] None None = Inr contributors"
    and one: "\<forall>statistics.
         get_statistics demo_git remdups [''repo'', ''gone''] None None [''fix''] = Inr statistics
         \<longrightarrow> map email statistics = contributors"
    and ret: "(\<forall>word\<in>set [''fix'']. plain_word word) \<longrightarrow>
         (\<exists>statistics.
            get_statistics demo_git remdups [''repo'', ''gone''] None None [''fix''] = Inr statistics)"
    by (elim exE conjE)
  from c have e: "contributors = [''b@x.com'', ''a@x.com'']" by (simp add: demo_git_emails)
  from ret p obtain statistics where
    st: "get_statistics demo_git remdups [''repo'', ''gone''] None None [''fix''] = Inr statistics"
    by (elim impE exE)
  from one st e have "map email statistics = [''b@x.com'', ''a@x.com'']" by simp
  with st have "\<exists>statistics.
         get_statistics demo_git remdups [''repo'', ''gone''] None None [''fix''] = Inr statistics
       \<and> map email statistics = [''b@x.com'', ''a@x.com'']" by (intro exI[of _ statistics] conjI)
  with set_listing_remdups demo_git_errors demo_git_emails fix_typo_facts(5) show ?thesis
    by (intro conjI)
qed

section \<open>Reporter\<close>

lemma set_sorted_reverse: "set (sorted_reverse key xs) = set xs"
  by (simp add: sorted_reverse_def)

lemma word_section_total:
  assumes "\<forall>item\<in>set statistics. word \<in> dom (words item)"
  shows "\<exists>rows. word_section limit word statistics = Inr rows"
  unfolding word_section_def
proof (rule for_each_total)
  fix s :: "(int \<times> string) list" and x :: "nat \<times> contributor"
  assume x: "x \<in> set (enumerate 0 (sorted_reverse (word_key word) statistics))"
  obtain cnt item where xe: "x = (cnt, item)" by (cases x) auto
  from x have "item \<in> set (sorted_reverse (word_key word) statistics)"
    unfolding xe by (auto simp: in_set_enumerate_eq)
  then have "item \<in> set statistics" by (simp only: set_sorted_reverse)
  with assms obtain n where "words item word = Some n" by auto
  then show "\<exists>s'. (case x of (cnt, item) \<Rightarrow>
                  case words item word of None \<Rightarrow> Inl KeyError
                  | Some n \<Rightarrow> if 0 < n \<and> cnt < limit then Inr (s @ [(n, email item)]) else Inr s)
               = Inr s'"
    unfolding xe by simp
qed

lemma word_sections_total:
  assumes "\<forall>item\<in>set statistics. set wordlist \<subseteq> dom (words item)"
  shows "\<exists>sections. word_sections wordlist statistics = Inr sections"
  unfolding word_sections_def
proof (rule for_each_total)
  fix s :: "(int \<times> string) list list" and w
  assume "w \<in> set wordlist"
  with assms have "\<forall>item\<in>set statistics. w \<in> dom (words item)" by blast
  from word_section_total[OF this, of show_top] obtain rows where
    "word_section show_top w statistics = Inr rows" by blast
  then show "\<exists>s'. and_then (word_section show_top w statistics) (\<lambda>rows. Inr (s @ [rows])) = Inr s'"
    by simp
qed

text \<open>
  Claim C10. In every record the Aggregator produces, the keys of the keyword-count mapping
  are exactly the keywords of the configured wordlist, so the Reporter's unguarded lookup of a
  configured keyword in any record is defined: no keyword section raises \<open>KeyError\<close>.
\<close>

theorem keyword_lookup_never_fails:
  assumes "get_statistics git set_order git_paths start_date end_date wordlist = Inr statistics"
  shows "(\<forall>item\<in>set statistics. dom (words item) = set wordlist)
       \<and> (\<forall>word\<in>set wordlist. \<exists>rows. word_section limit word statistics = Inr rows)
       \<and> (\<exists>sections. word_sections wordlist statistics = Inr sections)"
proof -
  have d: "\<forall>item\<in>set statistics. dom (words item) = set wordlist"
    using get_statistics_words_dom[OF assms] by blast
  have "\<forall>word\<in>set wordlist. \<exists>rows. word_section limit word statistics = Inr rows"
  proof
    fix word assume "word \<in> set wordlist"
    with d have "\<forall>item\<in>set statistics. word \<in> dom (words item)" by blast
    then show "\<exists>rows. word_section limit word statistics = Inr rows"
      by (rule word_section_total)
  qed
  moreover have "\<exists>sections. word_sections wordlist statistics = Inr sections"
    by (rule word_sections_total) (simp add: d)
  ultimately show ?thesis using d by blast
qed

lemma demo_git_fix_section:
  "and_then (get_statistics demo_git remdups [''repo'', ''gone''] None None [''fix''])
     (word_section 10 ''fix'') = Inr [(2, ''a@x.com'')]"
  by code_simp

theorem keyword_lookup_never_fails_witness:
  "\<exists>statistics.
     get_statistics demo_git remdups [''repo'', ''gone''] None None [''fix''] = Inr statistics
   \<and> (\<forall>item\<in>set statistics. dom (words item) = {''fix''})
   \<and> word_section 10 ''fix'' statistics = Inr [(2, ''a@x.com'')]
   \<and> (\<exists>sections. word_sections [''fix''] statistics = Inr sections)"
proof -
  from demo_git_fix_section obtain statistics where
    st: "get_statistics demo_git remdups [''repo'', ''gone''] None None [''fix''] = Inr statistics"
    and rows: "word_section 10 ''fix'' statistics = Inr [(2, ''a@x.com'')]"
    unfolding and_then_eq_Inr by (elim exE conjE)
  from keyword_lookup_never_fails[OF st, of 10]
  have "(\<forall>item\<in>set statistics. dom (words item) = {''fix''})"
    and "\<exists>sections. word_sections [''fix''] statistics = Inr sections"
    by simp_all
  with st rows show ?thesis by (intro exI[of _ statistics] conjI)
qed


lemma sorted_reverse_descending:
  "sorted_wrt (\<lambda>a b. key a \<ge> key b) (sorted_reverse key xs)"
proof -
  have "sorted (map key (sort_key key (rev xs)))" by (rule sorted_sort_key)
  then have "sorted_wrt (\<lambda>a b. key a \<le> key b) (sort_key key (rev xs))"
    by (simp add: sorted_wrt_map)
  then have "sorted_wrt (\<lambda>a b. key b \<le> key a) (rev (sort_key key (rev xs)))"
    by (simp add: sorted_wrt_rev)
  then show ?thesis by (simp add: sorted_reverse_def)
qed

lemma enumerate_descending:
  assumes "sorted_wrt (\<lambda>a b. key a \<ge> key b) ys"
  shows "sorted_wrt (\<lambda>a b. key (snd a) \<ge> key (snd b)) (enumerate n ys)"
proof -
  have "sorted_wrt (\<lambda>a b. key a \<ge> key b) (map snd (enumerate n ys))"
    using assms by (simp add: map_snd_enumerate)
  then show ?thesis by (simp only: sorted_wrt_map)
qed

lemma leaderboard_descending:
  "sorted_wrt (\<lambda>a b. fst a \<ge> fst b) (leaderboard limit key statistics)"
proof -
  let ?kept = "filter (\<lambda>(cnt, item). key item > 0 \<and> cnt < limit)
                 (enumerate 0 (sorted_reverse key statistics))"
  have "sorted_wrt (\<lambda>a b. key (snd a) \<ge> key (snd b)) ?kept"
    by (intro sorted_wrt_filter enumerate_descending sorted_reverse_descending)
  then have "sorted_wrt (\<lambda>a b. fst a \<ge> fst b) (map (\<lambda>(cnt, item). (key item, email item)) ?kept)"
    by (simp add: sorted_wrt_map case_prod_beta)
  then show ?thesis by (simp only: leaderboard_def)
qed

lemma leaderboard_rows:
  assumes "row \<in> set (leaderboard limit key statistics)"
  shows "0 < fst row \<and> (\<exists>item\<in>set statistics. row = (key item, email item) \<and> 0 < key item)"
proof -
  from assms obtain cnt item where
    m: "(cnt, item) \<in> set (enumerate 0 (sorted_reverse key statistics))"
    and k: "key item > 0" and r: "row = (key item, email item)"
    by (auto simp: leaderboard_def)
  from m have "item \<in> set (sorted_reverse key statistics)" by (auto simp: in_set_enumerate_eq)
  then have "item \<in> set statistics" by (simp only: set_sorted_reverse)
  with k r show ?thesis by auto
qed

lemma length_filter_index:
  "length (filter (\<lambda>(cnt, item). P item \<and> cnt < limit) (enumerate n ys)) \<le> limit - n"
proof (induction ys arbitrary: n)
  case Nil
  then show ?case by simp
next
  case (Cons y ys)
  from Cons.IH[of "Suc n"] show ?case by auto
qed

lemma leaderboard_length: "length (leaderboard limit key statistics) \<le> limit"
  using length_filter_index[of "\<lambda>item. key item > 0" limit 0 "sorted_reverse key statistics"]
  by (simp add: leaderboard_def)

text \<open>
  Claim C2. For every list of aggregated contributor records and every one of the seven
  numeric metrics, the rows a leaderboard section emits are in descending order of the metric
  (equal values may follow each other), every emitted row has a value strictly greater than
  zero and comes from a record with that value, at most N rows are emitted, and a contributor
  whose value is 0 is never listed. \<open>main\<close> prints the seven sections with N = 10.
\<close>

theorem leaderboard_sorted_positive_bounded:
  "sorted_wrt (\<lambda>a b. fst a \<ge> fst b) (leaderboard limit key statistics)
   \<and> (\<forall>row\<in>set (leaderboard limit key statistics).
         0 < fst row \<and> (\<exists>item\<in>set statistics. row = (key item, email item) \<and> 0 < key item))
   \<and> length (leaderboard limit key statistics) \<le> limit
   \<and> (\<forall>item\<in>set statistics. key item = 0 \<longrightarrow>
         (key item, email item) \<notin> set (leaderboard limit key statistics))
   \<and> metric_sections statistics
       = map (\<lambda>key. leaderboard 10 key statistics)
           [commits, files, max_files, adds, max_adds, dels, max_dels]"
proof (intro conjI ballI impI)
  show "sorted_wrt (\<lambda>a b. fst a \<ge> fst b) (leaderboard limit key statistics)"
    by (rule leaderboard_descending)
  show "length (leaderboard limit key statistics) \<le> limit" by (rule leaderboard_length)
  show "metric_sections statistics
       = map (\<lambda>key. leaderboard 10 key statistics)
           [commits, files, max_files, adds, max_adds, dels, max_dels]"
    by (simp add: metric_sections_def metrics_def show_top_def)
next
  fix row assume "row \<in> set (leaderboard limit key statistics)"
  from leaderboard_rows[OF this]
  show "0 < fst row" and "\<exists>item\<in>set statistics. row = (key item, email item) \<and> 0 < key item"
    by simp_all
next
  fix item assume "item \<in> set statistics" and z: "key item = 0"
  show "(key item, email item) \<notin> set (leaderboard limit key statistics)"
  proof
    assume "(key item, email item) \<in> set (leaderboard limit key statistics)"
    from leaderboard_rows[OF this] z show False by simp
  qed
qed


lemma demo_statistics_by_commits:
  "leaderboard 2 commits demo_statistics = [(5, ''c@x.com''), (3, ''a@x.com'')]"
  by code_simp

theorem leaderboard_sorted_positive_bounded_witness:
  "leaderboard 2 commits demo_statistics = [(5, ''c@x.com''), (3, ''a@x.com'')]
   \<and> sorted_wrt (\<lambda>a b. fst a \<ge> fst b) (leaderboard 2 commits demo_statistics)
   \<and> length (leaderboard 2 commits demo_statistics) \<le> 2
   \<and> commits (demo_statistics ! 1) = 0
   \<and> (commits (demo_statistics ! 1), email (demo_statistics ! 1))
        \<notin> set (leaderboard 2 commits demo_statistics)"
proof -
  have m: "demo_statistics ! 1 \<in> set demo_statistics" by (simp add: demo_statistics_def)
  have z: "commits (demo_statistics ! 1) = 0" by (simp add: demo_statistics_def demo_record_def)
  from leaderboard_sorted_positive_bounded[of 2 commits demo_statistics] m z
  have "sorted_wrt (\<lambda>a b. fst a \<ge> fst b) (leaderboard 2 commits demo_statistics)"
    and "length (leaderboard 2 commits demo_statistics) \<le> 2"
    and "(commits (demo_statistics ! 1), email (demo_statistics ! 1))
        \<notin> set (leaderboard 2 commits demo_statistics)"
    by blast+
  with demo_statistics_by_commits z show ?thesis by (intro conjI)
qed


end
